theory Spec2Isabelle
  imports Complex_Main "HOL-Library.Multiset"
begin

section \<open>Race simulation engine of f1\_lstm\_strategy\_sim.py\<close>

text \<open>
  The theory embeds the simulation part of \<^verbatim>\<open>src/models/f1_lstm_strategy_sim.py\<close>:
  \<^verbatim>\<open>SeqPreprocessor.build_single_inputs\<close>, \<^verbatim>\<open>LSTMLapTimeModel.predict_sequence\<close>,
  \<^verbatim>\<open>LSTMLapTimeModel._estimate_pit_loss\<close>, \<^verbatim>\<open>LSTMSimulator._is_sc\<close> and
  \<^verbatim>\<open>LSTMSimulator.simulate\<close>.

  Python floats are read as \<^typ>\<open>real\<close> (no rounding, no NaN, no overflow), Python ints as
  \<^typ>\<open>int\<close>, dicts as maps, and the exceptions of the embedded code as values of \<open>error\<close>.
  The values of the feature dicts (typed \<^verbatim>\<open>Any\<close> in the source) are the scalars of \<open>pyval\<close>.
  The trained Keras network is a parameter of the model record, and so are the two Python
  builtins that the encoder applies to values, where their result is not modelled here:
  \<^verbatim>\<open>str\<close> on a value that is not a string, and \<^verbatim>\<open>float\<close> on a string.
\<close>

subsection \<open>Values, errors and Python list operations\<close>

datatype pyval = PNone | PBool bool | PInt int | PFloat real | PStr string

text \<open>Python's \<^verbatim>\<open>bool(v)\<close>.\<close>

fun truthy :: "pyval \<Rightarrow> bool" where
  "truthy PNone = False"
| "truthy (PBool b) = b"
| "truthy (PInt i) = (i \<noteq> 0)"
| "truthy (PFloat r) = (r \<noteq> 0)"
| "truthy (PStr s) = (s \<noteq> [])"

datatype error = IndexError | KeyError | ValueError | TypeError | ZeroDivisionError

text \<open>\<^verbatim>\<open>xs[-n:]\<close> for \<open>n \<ge> 0\<close>: the last \<open>n\<close> elements, and the whole list when \<open>n = 0\<close>
  (\<^verbatim>\<open>xs[-0:]\<close> is \<^verbatim>\<open>xs[0:]\<close>).\<close>

definition py_last_n :: "nat \<Rightarrow> 'a list \<Rightarrow> 'a list" where
  "py_last_n n xs = (if n = 0 then xs else drop (length xs - n) xs)"

text \<open>\<^verbatim>\<open>xs[i]\<close> for \<open>i \<ge> 0\<close>.\<close>

definition py_index :: "'a list \<Rightarrow> nat \<Rightarrow> error + 'a" where
  "py_index xs i = (if i < length xs then Inr (xs ! i) else Inl IndexError)"

subsection \<open>Data model\<close>

text \<open>A feature step is the dict built per driver and lap.\<close>

type_synonym step = "string \<rightharpoonup> pyval"

record DriverSpec =
  name :: string
  team :: string
  grid :: int
  start_compound :: string

record PitEvent =
  pe_lap :: int
  pe_compound :: string

record RaceConfig =
  circuit :: string
  total_laps :: int
  drivers :: "DriverSpec list"
  strategy :: "string \<rightharpoonup> PitEvent list"
  safety_cars :: "(int \<times> int) list"
  dnfs :: "(string \<times> int) list"
  weather_by_lap :: "int \<rightharpoonup> step"
  default_weather :: step
  default_pit_loss :: real

text \<open>The per-driver dict \<^verbatim>\<open>state[name]\<close>.\<close>

record driver_state =
  st_team :: string
  st_compound :: string
  tyre_age :: int
  total_time :: real
  st_grid :: int
  running :: bool

text \<open>The dict of arrays that \<^verbatim>\<open>build_single_inputs\<close> returns (the single row of each).\<close>

record encoded =
  driver_seq :: "int list"
  team_seq :: "int list"
  circuit_seq :: "int list"
  compound_seq :: "int list"
  num_seq :: "real list list"

text \<open>
  \<^verbatim>\<open>LSTMLapTimeModel\<close> with the attributes of its \<^verbatim>\<open>SeqPreprocessor\<close> that inference reads
  (\<open>max_len\<close>, \<open>cat_maps\<close>, \<open>num_cols\<close>, \<open>numeric_means\<close>, \<open>numeric_stds\<close>), the network
  (\<^verbatim>\<open>model.predict\<close>, row 0, channel 0) and the pit-loss table. \<open>py_str\<close> is Python's
  \<^verbatim>\<open>str\<close> on the values that are not strings; \<open>py_float_of_str\<close> is \<^verbatim>\<open>float\<close> on a string,
  \<open>None\<close> where it raises ValueError. The statistics are Python floats (\<^verbatim>\<open>fit\<close> stores
  \<^verbatim>\<open>float(...)\<close>), so that dividing by a deviation of zero raises ZeroDivisionError.
\<close>

record LSTMLapTimeModel =
  max_len :: nat
  cat_maps :: "string \<rightharpoonup> (string \<rightharpoonup> int)"
  num_cols :: "string list"
  numeric_means :: "string \<rightharpoonup> real"
  numeric_stds :: "string \<rightharpoonup> real"
  py_str :: "pyval \<Rightarrow> string"
  py_float_of_str :: "string \<Rightarrow> real option"
  net :: "encoded \<Rightarrow> real list"
  pit_loss_by_circuit :: "string \<rightharpoonup> real"

record timeline_entry =
  tl_lap :: int
  tl_order :: "string list"
  lap_times :: "string \<rightharpoonup> real"
  tl_is_sc :: bool

datatype status = Finished | DNF

record class_entry =
  pos :: "nat option"
  driver :: string
  cl_team :: string
  cl_total_time :: real
  cl_status :: status

record sim_result =
  classification :: "class_entry list"
  res_timeline :: "timeline_entry list"
  pit_loss_used :: real

text \<open>The local variables of \<^verbatim>\<open>simulate\<close> that live across laps.\<close>

record sim =
  state :: "string \<rightharpoonup> driver_state"
  history :: "string \<rightharpoonup> step list"
  order :: "string list"
  timeline :: "timeline_entry list"

subsection \<open>Predictor interface\<close>

text \<open>\<^verbatim>\<open>step.get(key, None)\<close>.\<close>

definition dget :: "step \<Rightarrow> string \<Rightarrow> pyval" where
  "dget d k = (case d k of None \<Rightarrow> PNone | Some v \<Rightarrow> v)"

text \<open>A list comprehension whose body can raise: the first exception ends it.\<close>

fun mapM :: "('a \<Rightarrow> error + 'b) \<Rightarrow> 'a list \<Rightarrow> error + 'b list" where
  "mapM f [] = Inr []"
| "mapM f (x # xs) =
     (case f x of
        Inl e \<Rightarrow> Inl e
      | Inr y \<Rightarrow> (case mapM f xs of Inl e \<Rightarrow> Inl e | Inr ys \<Rightarrow> Inr (y # ys)))"

text \<open>Python's \<^verbatim>\<open>str(v)\<close>: a string is returned as it is.\<close>

definition str_of :: "LSTMLapTimeModel \<Rightarrow> pyval \<Rightarrow> string" where
  "str_of M v = (case v of PStr s \<Rightarrow> s | _ \<Rightarrow> py_str M v)"

text \<open>\<^verbatim>\<open>SeqPreprocessor._idx\<close>: the code of a categorical value, 1 for unknown;
  \<^verbatim>\<open>self.cat_maps[key]\<close> raises KeyError for a key without table.\<close>

definition idx :: "LSTMLapTimeModel \<Rightarrow> string \<Rightarrow> pyval \<Rightarrow> error + int" where
  "idx M key val =
     (case cat_maps M key of
        None \<Rightarrow> Inl KeyError
      | Some m \<Rightarrow>
          if val = PNone then Inr 1
          else Inr (case m (str_of M val) of None \<Rightarrow> 1 | Some i \<Rightarrow> i))"

text \<open>Python's \<^verbatim>\<open>float(v)\<close>.\<close>

definition py_float :: "LSTMLapTimeModel \<Rightarrow> pyval \<Rightarrow> error + real" where
  "py_float M v =
     (case v of
        PNone \<Rightarrow> Inl TypeError
      | PBool b \<Rightarrow> Inr (if b then 1 else 0)
      | PInt i \<Rightarrow> Inr (real_of_int i)
      | PFloat r \<Rightarrow> Inr r
      | PStr s \<Rightarrow> (case py_float_of_str M s of None \<Rightarrow> Inl ValueError | Some r \<Rightarrow> Inr r))"

text \<open>\<^verbatim>\<open>SeqPreprocessor._num\<close>: a missing value becomes the column mean, then the value is
  converted and normalised.\<close>

definition num :: "LSTMLapTimeModel \<Rightarrow> string \<Rightarrow> pyval \<Rightarrow> error + real" where
  "num M key val =
     (let col_mean = (case numeric_means M key of None \<Rightarrow> 0 | Some m \<Rightarrow> m);
          v = (if val = PNone then PFloat col_mean else val);
          col_std = (case numeric_stds M key of None \<Rightarrow> 1 | Some s \<Rightarrow> s)
      in case py_float M v of
           Inl e \<Rightarrow> Inl e
         | Inr x \<Rightarrow> if col_std = 0 then Inl ZeroDivisionError else Inr ((x - col_mean) / col_std))"

definition build_single_inputs :: "LSTMLapTimeModel \<Rightarrow> step list \<Rightarrow> error + encoded" where
  "build_single_inputs M hist_steps =
     (let maxlen = max_len M;
          L = min (length hist_steps) maxlen;
          steps = py_last_n L hist_steps
      in case mapM (\<lambda>s. idx M ''driver'' (dget s ''driver'')) steps of
           Inl e \<Rightarrow> Inl e
         | Inr drv_idx \<Rightarrow>
        (case mapM (\<lambda>s. idx M ''team'' (dget s ''team'')) steps of
           Inl e \<Rightarrow> Inl e
         | Inr team_idx \<Rightarrow>
        (case mapM (\<lambda>s. idx M ''circuit'' (dget s ''circuit'')) steps of
           Inl e \<Rightarrow> Inl e
         | Inr circ_idx \<Rightarrow>
        (case mapM (\<lambda>s. idx M ''compound'' (dget s ''compound'')) steps of
           Inl e \<Rightarrow> Inl e
         | Inr comp_idx \<Rightarrow>
        (case mapM (\<lambda>s. mapM (\<lambda>k. num M k (dget s k)) (num_cols M)) steps of
           Inl e \<Rightarrow> Inl e
         | Inr num_steps \<Rightarrow>
             Inr \<lparr>driver_seq = drv_idx @ replicate (maxlen - L) 0,
                  team_seq = team_idx @ replicate (maxlen - L) 0,
                  circuit_seq = circ_idx @ replicate (maxlen - L) 0,
                  compound_seq = comp_idx @ replicate (maxlen - L) 0,
                  num_seq = num_steps @
                    replicate (maxlen - L) (replicate (length (num_cols M)) 0)\<rparr>)))))"

text \<open>\<^verbatim>\<open>predict_sequence\<close>; the simulator's constructor has checked that there is a network.\<close>

definition predict_sequence :: "LSTMLapTimeModel \<Rightarrow> step list \<Rightarrow> error + real list" where
  "predict_sequence M steps =
     (case build_single_inputs M steps of
        Inl e \<Rightarrow> Inl e
      | Inr X \<Rightarrow> Inr (net M X))"

text \<open>A Keras network maps a padded sequence to one output per time step.\<close>

definition conforming :: "LSTMLapTimeModel \<Rightarrow> bool" where
  "conforming M = (\<forall>X. length (net M X) = length (driver_seq X))"

subsection \<open>Safety car\<close>

fun is_sc :: "int \<Rightarrow> (int \<times> int) list \<Rightarrow> bool" where
  "is_sc l [] = False"
| "is_sc l ((a, b) # ws) = (if a \<le> l \<and> l \<le> b then True else is_sc l ws)"

subsection \<open>One lap\<close>

text \<open>The DNF loop body: \<^verbatim>\<open>state.get(name)\<close> is falsy exactly when the name is absent.\<close>

definition dnf_step :: "int \<Rightarrow> string \<times> int \<Rightarrow> (string \<rightharpoonup> driver_state) \<Rightarrow> (string \<rightharpoonup> driver_state)" where
  "dnf_step l e st =
     (case e of (n, lap_dnf) \<Rightarrow>
        if lap_dnf = l then
          (case st n of
             None \<Rightarrow> st
           | Some s \<Rightarrow> if running s then st(n \<mapsto> s\<lparr>running := False\<rparr>) else st)
        else st)"

definition apply_dnfs :: "RaceConfig \<Rightarrow> int \<Rightarrow> (string \<rightharpoonup> driver_state) \<Rightarrow> (string \<rightharpoonup> driver_state)" where
  "apply_dnfs cfg l st = fold (dnf_step l) (dnfs cfg) st"

text \<open>\<^verbatim>\<open>config.strategy.get(name, [])\<close> and \<^verbatim>\<open>any(e.lap == lap for e in ...)\<close>.\<close>

definition strategy_get :: "RaceConfig \<Rightarrow> string \<Rightarrow> PitEvent list" where
  "strategy_get cfg n = (case strategy cfg n of None \<Rightarrow> [] | Some es \<Rightarrow> es)"

definition will_pit :: "RaceConfig \<Rightarrow> string \<Rightarrow> int \<Rightarrow> bool" where
  "will_pit cfg n l = list_ex (\<lambda>e. pe_lap e = l) (strategy_get cfg n)"

text \<open>The feature dict of a driver on a lap; the weather override of the lap is merged
  over it key by key. The same construction is used for the prediction input (before the
  tyre update) and for the history entry (after it).\<close>

definition base_step :: "RaceConfig \<Rightarrow> int \<Rightarrow> bool \<Rightarrow> string \<Rightarrow> driver_state \<Rightarrow> step" where
  "base_step cfg l sc n s =
     [''driver'' \<mapsto> PStr n,
      ''team'' \<mapsto> PStr (st_team s),
      ''circuit'' \<mapsto> PStr (circuit cfg),
      ''compound'' \<mapsto> PStr (st_compound s),
      ''lap_number'' \<mapsto> PInt l,
      ''tyre_age'' \<mapsto> PInt (tyre_age s),
      ''is_sc'' \<mapsto> PInt (if sc then 1 else 0),
      ''is_vsc'' \<mapsto> PInt 0,
      ''rain'' \<mapsto> PInt (if truthy (case default_weather cfg ''rain'' of None \<Rightarrow> PBool False | Some v \<Rightarrow> v)
                        then 1 else 0),
      ''air_temp'' \<mapsto> dget (default_weather cfg) ''air_temp'',
      ''track_temp'' \<mapsto> dget (default_weather cfg) ''track_temp'',
      ''humidity'' \<mapsto> dget (default_weather cfg) ''humidity'',
      ''wind_speed'' \<mapsto> dget (default_weather cfg) ''wind_speed'']"

definition mk_step :: "RaceConfig \<Rightarrow> int \<Rightarrow> bool \<Rightarrow> string \<Rightarrow> driver_state \<Rightarrow> step" where
  "mk_step cfg l sc n s =
     (case weather_by_lap cfg l of
        None \<Rightarrow> base_step cfg l sc n s
      | Some w \<Rightarrow> base_step cfg l sc n s ++ w)"

text \<open>The prediction loop over \<open>order\<close>; \<open>lts\<close> is the dict \<^verbatim>\<open>lap_times\<close>.\<close>

fun predict_laps ::
  "LSTMLapTimeModel \<Rightarrow> RaceConfig \<Rightarrow> real \<Rightarrow> int \<Rightarrow> bool \<Rightarrow> (string \<rightharpoonup> driver_state) \<Rightarrow>
   (string \<rightharpoonup> step list) \<Rightarrow> string list \<Rightarrow> (string \<rightharpoonup> real) \<Rightarrow> error + (string \<rightharpoonup> real)" where
  "predict_laps M cfg pit_loss l sc st hs [] lts = Inr lts"
| "predict_laps M cfg pit_loss l sc st hs (n # ns) lts =
     (case st n of
        None \<Rightarrow> Inl KeyError
      | Some s \<Rightarrow>
          if \<not> running s then predict_laps M cfg pit_loss l sc st hs ns lts
          else
            (case hs n of
               None \<Rightarrow> Inl KeyError
             | Some h \<Rightarrow>
                 (let hist = h @ [mk_step cfg l sc n s] in
                  case predict_sequence M hist of
                    Inl e \<Rightarrow> Inl e
                  | Inr yhat_seq \<Rightarrow>
                      (case py_index yhat_seq (length hist - 1) of
                         Inl e \<Rightarrow> Inl e
                       | Inr yhat \<Rightarrow>
                           predict_laps M cfg pit_loss l sc st hs ns
                             (lts(n \<mapsto> (if will_pit cfg n l then yhat + pit_loss else yhat)))))))"

text \<open>\<^verbatim>\<open>for name, t in lap_times.items(): state[name]["total_time"] += t\<close>; the keys of a dict
  are unique, so every driver with a lap time is advanced once.\<close>

definition update_totals :: "(string \<rightharpoonup> real) \<Rightarrow> (string \<rightharpoonup> driver_state) \<Rightarrow> (string \<rightharpoonup> driver_state)" where
  "update_totals lts st =
     (\<lambda>n. case st n of
            None \<Rightarrow> None
          | Some s \<Rightarrow> (case lts n of None \<Rightarrow> Some s
                                   | Some t \<Rightarrow> Some (s\<lparr>total_time := total_time s + t\<rparr>)))"

text \<open>The tyre and compound loop over \<open>order\<close>.\<close>

fun update_tyres ::
  "RaceConfig \<Rightarrow> int \<Rightarrow> string list \<Rightarrow> (string \<rightharpoonup> driver_state) \<Rightarrow> error + (string \<rightharpoonup> driver_state)" where
  "update_tyres cfg l [] st = Inr st"
| "update_tyres cfg l (n # ns) st =
     (case st n of
        None \<Rightarrow> Inl KeyError
      | Some s \<Rightarrow>
          if \<not> running s then update_tyres cfg l ns st
          else if will_pit cfg n l then
            (case filter (\<lambda>e. pe_lap e = l) (strategy_get cfg n) of
               [] \<Rightarrow> Inl IndexError
             | e # _ \<Rightarrow> update_tyres cfg l ns (st(n \<mapsto> s\<lparr>st_compound := pe_compound e, tyre_age := 0\<rparr>)))
          else update_tyres cfg l ns (st(n \<mapsto> s\<lparr>tyre_age := tyre_age s + 1\<rparr>)))"

text \<open>The history loop over \<open>order\<close>: append the post-update step, keep the last \<open>max_len\<close>.\<close>

definition push :: "nat \<Rightarrow> step list \<Rightarrow> step \<Rightarrow> step list" where
  "push maxlen h x = py_last_n maxlen (h @ [x])"

fun push_history ::
  "LSTMLapTimeModel \<Rightarrow> RaceConfig \<Rightarrow> int \<Rightarrow> bool \<Rightarrow> (string \<rightharpoonup> driver_state) \<Rightarrow> string list \<Rightarrow>
   (string \<rightharpoonup> step list) \<Rightarrow> error + (string \<rightharpoonup> step list)" where
  "push_history M cfg l sc st [] hs = Inr hs"
| "push_history M cfg l sc st (n # ns) hs =
     (case st n of
        None \<Rightarrow> Inl KeyError
      | Some s \<Rightarrow>
          if \<not> running s then push_history M cfg l sc st ns hs
          else
            (case hs n of
               None \<Rightarrow> Inl KeyError
             | Some h \<Rightarrow>
                 push_history M cfg l sc st ns (hs(n \<mapsto> push (max_len M) h (mk_step cfg l sc n s)))))"

text \<open>Reordering. The comprehensions read \<^verbatim>\<open>state[n]\<close> for names of \<open>order\<close> only, all of
  which the loops above have already looked up, so no KeyError is possible here.\<close>

definition is_running :: "(string \<rightharpoonup> driver_state) \<Rightarrow> string \<Rightarrow> bool" where
  "is_running st n = (case st n of None \<Rightarrow> False | Some s \<Rightarrow> running s)"

definition time_of :: "(string \<rightharpoonup> driver_state) \<Rightarrow> string \<Rightarrow> real" where
  "time_of st n = (case st n of None \<Rightarrow> 0 | Some s \<Rightarrow> total_time s)"

definition running_sorted :: "(string \<rightharpoonup> driver_state) \<Rightarrow> string list \<Rightarrow> string list" where
  "running_sorted st xs = sort_key (time_of st) (filter (is_running st) xs)"

definition retired :: "(string \<rightharpoonup> driver_state) \<Rightarrow> string list \<Rightarrow> string list" where
  "retired st xs = filter (\<lambda>n. \<not> is_running st n) xs"

definition lap_step :: "LSTMLapTimeModel \<Rightarrow> RaceConfig \<Rightarrow> real \<Rightarrow> int \<Rightarrow> sim \<Rightarrow> error + sim" where
  "lap_step M cfg pit_loss l s =
     (let st1 = apply_dnfs cfg l (state s);
          sc = is_sc l (safety_cars cfg)
      in case predict_laps M cfg pit_loss l sc st1 (history s) (order s) Map.empty of
           Inl e \<Rightarrow> Inl e
         | Inr lts \<Rightarrow>
             (case update_tyres cfg l (order s) (update_totals lts st1) of
                Inl e \<Rightarrow> Inl e
              | Inr st3 \<Rightarrow>
                  (case push_history M cfg l sc st3 (order s) (history s) of
                     Inl e \<Rightarrow> Inl e
                   | Inr hs \<Rightarrow>
                       Inr \<lparr>state = st3, history = hs,
                            order = running_sorted st3 (order s) @ retired st3 (order s),
                            timeline = timeline s @
                              [\<lparr>tl_lap = l, tl_order = running_sorted st3 (order s),
                                lap_times = lts, tl_is_sc = sc\<rparr>]\<rparr>)))"

subsection \<open>The whole simulation\<close>

definition init_driver :: "DriverSpec \<Rightarrow> driver_state" where
  "init_driver d =
     \<lparr>st_team = team d, st_compound = start_compound d, tyre_age = 0, total_time = 0,
      st_grid = grid d, running = True\<rparr>"

definition grid_of :: "(string \<rightharpoonup> driver_state) \<Rightarrow> string \<Rightarrow> int" where
  "grid_of st n = (case st n of None \<Rightarrow> 0 | Some s \<Rightarrow> st_grid s)"

definition init_state :: "DriverSpec list \<Rightarrow> (string \<rightharpoonup> driver_state)" where
  "init_state ds = fold (\<lambda>d st. st(name d \<mapsto> init_driver d)) ds Map.empty"

definition init_history :: "DriverSpec list \<Rightarrow> (string \<rightharpoonup> step list)" where
  "init_history ds = fold (\<lambda>d hs. hs(name d \<mapsto> [])) ds Map.empty"

definition init_sim :: "RaceConfig \<Rightarrow> sim" where
  "init_sim cfg =
     \<lparr>state = init_state (drivers cfg), history = init_history (drivers cfg),
      order = sort_key (grid_of (init_state (drivers cfg))) (map name (drivers cfg)),
      timeline = []\<rparr>"

definition pit_loss_of :: "LSTMLapTimeModel \<Rightarrow> RaceConfig \<Rightarrow> real" where
  "pit_loss_of M cfg =
     (case pit_loss_by_circuit M (circuit cfg) of None \<Rightarrow> default_pit_loss cfg | Some v \<Rightarrow> v)"

text \<open>The simulation after the first \<open>k\<close> iterations of \<^verbatim>\<open>for lap in range(1, total_laps + 1)\<close>.\<close>

primrec sim_upto :: "LSTMLapTimeModel \<Rightarrow> RaceConfig \<Rightarrow> nat \<Rightarrow> error + sim" where
  "sim_upto M cfg 0 = Inr (init_sim cfg)"
| "sim_upto M cfg (Suc k) =
     (case sim_upto M cfg k of
        Inl e \<Rightarrow> Inl e
      | Inr s \<Rightarrow> lap_step M cfg (pit_loss_of M cfg) (int (Suc k)) s)"

text \<open>The two classification loops.\<close>

fun classify_running :: "(string \<rightharpoonup> driver_state) \<Rightarrow> nat \<Rightarrow> string list \<Rightarrow> class_entry list" where
  "classify_running st p [] = []"
| "classify_running st p (n # ns) =
     (case st n of
        None \<Rightarrow> classify_running st p ns
      | Some s \<Rightarrow>
          if running s then
            \<lparr>pos = Some p, driver = n, cl_team = st_team s, cl_total_time = total_time s,
             cl_status = Finished\<rparr> # classify_running st (p + 1) ns
          else classify_running st p ns)"

fun classify_dnf :: "(string \<rightharpoonup> driver_state) \<Rightarrow> string list \<Rightarrow> class_entry list" where
  "classify_dnf st [] = []"
| "classify_dnf st (n # ns) =
     (case st n of
        None \<Rightarrow> classify_dnf st ns
      | Some s \<Rightarrow>
          if \<not> running s then
            \<lparr>pos = None, driver = n, cl_team = st_team s, cl_total_time = total_time s,
             cl_status = DNF\<rparr> # classify_dnf st ns
          else classify_dnf st ns)"

definition classify :: "sim \<Rightarrow> class_entry list" where
  "classify s = classify_running (state s) 1 (order s) @ classify_dnf (state s) (order s)"

definition simulate :: "LSTMLapTimeModel \<Rightarrow> RaceConfig \<Rightarrow> error + sim_result" where
  "simulate M cfg =
     (case sim_upto M cfg (nat (total_laps cfg)) of
        Inl e \<Rightarrow> Inl e
      | Inr s \<Rightarrow>
          Inr \<lparr>classification = classify s, res_timeline = timeline s,
               pit_loss_used = pit_loss_of M cfg\<rparr>)"

subsection \<open>Notions used in the statements\<close>

text \<open>What the tyre loop does to one running driver.\<close>

definition tyre_step :: "RaceConfig \<Rightarrow> int \<Rightarrow> string \<Rightarrow> driver_state \<Rightarrow> driver_state" where
  "tyre_step cfg l n s =
     (if will_pit cfg n l
      then s\<lparr>st_compound := pe_compound (hd (filter (\<lambda>e. pe_lap e = l) (strategy_get cfg n))), tyre_age := 0\<rparr>
      else s\<lparr>tyre_age := tyre_age s + 1\<rparr>)"

text \<open>The lap time charged to a driver in a timeline entry, 0 when there is none.\<close>

definition charged :: "timeline_entry \<Rightarrow> string \<Rightarrow> real" where
  "charged e n = (case lap_times e n of None \<Rightarrow> 0 | Some t \<Rightarrow> t)"

text \<open>The names of the roster, in configuration order.\<close>

definition roster :: "RaceConfig \<Rightarrow> string list" where
  "roster cfg = map name (drivers cfg)"

text \<open>A retirement entry for driver \<open>n\<close> that falls on one of the laps \<open>1..k\<close>.\<close>

definition dnf_by :: "RaceConfig \<Rightarrow> nat \<Rightarrow> string \<Rightarrow> bool" where
  "dnf_by cfg k n = list_ex (\<lambda>e. fst e = n \<and> 1 \<le> snd e \<and> snd e \<le> int k) (dnfs cfg)"

text \<open>A small race used to instantiate the theorems: two drivers, three laps, driver A pits
  on lap 2 from compound X to Y, driver B retires on lap 2, a safety car on lap 2 only.
  The network predicts 90 seconds at every position; the circuit has a pit-loss estimate
  of 22 seconds. In the races below every categorical field holds a string and no numeric
  field does, so that neither of the two builtin parameters is ever applied; they are
  instantiated by constants.\<close>

definition demo_model :: "nat \<Rightarrow> LSTMLapTimeModel" where
  "demo_model m =
     \<lparr>max_len = m,
      cat_maps = [''driver'' \<mapsto> [''A'' \<mapsto> 2, ''B'' \<mapsto> 3],
                  ''team'' \<mapsto> [''T1'' \<mapsto> 2, ''T2'' \<mapsto> 3],
                  ''circuit'' \<mapsto> [''Monza'' \<mapsto> 2, ''Spa'' \<mapsto> 3],
                  ''compound'' \<mapsto> [''X'' \<mapsto> 2, ''Y'' \<mapsto> 3]],
      num_cols = [''lap_number'', ''tyre_age'', ''air_temp'', ''is_sc''],
      numeric_means = [''lap_number'' \<mapsto> 2, ''tyre_age'' \<mapsto> 1, ''air_temp'' \<mapsto> 25],
      numeric_stds = [''lap_number'' \<mapsto> 1, ''tyre_age'' \<mapsto> 1, ''air_temp'' \<mapsto> 5],
      py_str = (\<lambda>v. []),
      py_float_of_str = (\<lambda>s. None),
      net = (\<lambda>X. replicate (length (driver_seq X)) 90),
      pit_loss_by_circuit = [''Monza'' \<mapsto> 22]\<rparr>"

definition demo_cfg :: RaceConfig where
  "demo_cfg =
     \<lparr>circuit = ''Monza'', total_laps = 3,
      drivers = [\<lparr>name = ''A'', team = ''T1'', grid = 1, start_compound = ''X''\<rparr>,
                 \<lparr>name = ''B'', team = ''T2'', grid = 2, start_compound = ''X''\<rparr>],
      strategy = [''A'' \<mapsto> [\<lparr>pe_lap = 2, pe_compound = ''Y''\<rparr>]],
      safety_cars = [(2, 2)],
      dnfs = [(''B'', 2)],
      weather_by_lap = Map.empty,
      default_weather = Map.empty,
      default_pit_loss = 20\<rparr>"

text \<open>A model with \<open>max_len = 2\<close> whose network returns one output more than it has
  positions: with it a simulation gets past lap \<open>max_len\<close>, so that the history is trimmed.\<close>

definition wide_model :: LSTMLapTimeModel where
  "wide_model =
     (demo_model 2)\<lparr>net := (\<lambda>X. replicate (Suc (length (driver_seq X))) 90),
                     pit_loss_by_circuit := Map.empty\<rparr>"

text \<open>A model whose network predicts \<open>-90\<close> at every position.\<close>

definition neg_model :: LSTMLapTimeModel where
  "neg_model = (demo_model 5)\<lparr>net := (\<lambda>X. replicate (length (driver_seq X)) (- 90))\<rparr>"

text \<open>The demonstration race on a circuit without pit-loss estimate, with a negative
  default pit loss.\<close>

definition neg_loss_cfg :: RaceConfig where
  "neg_loss_cfg = demo_cfg\<lparr>circuit := ''Spa'', default_pit_loss := - 1000\<rparr>"

text \<open>A configuration with duplicate grid positions and a pit event on lap 7 of a
  three-lap race; \<open>unchecked_cfg0\<close> is the same with \<open>total_laps = 0\<close>.\<close>

definition unchecked_cfg :: RaceConfig where
  "unchecked_cfg =
     \<lparr>circuit = ''Monza'', total_laps = 3,
      drivers = [\<lparr>name = ''A'', team = ''T1'', grid = 1, start_compound = ''X''\<rparr>,
                 \<lparr>name = ''B'', team = ''T2'', grid = 1, start_compound = ''X''\<rparr>],
      strategy = [''A'' \<mapsto> [\<lparr>pe_lap = 7, pe_compound = ''Y''\<rparr>]],
      safety_cars = [],
      dnfs = [],
      weather_by_lap = Map.empty,
      default_weather = Map.empty,
      default_pit_loss = 20\<rparr>"

definition unchecked_cfg0 :: RaceConfig where
  "unchecked_cfg0 = unchecked_cfg\<lparr>total_laps := 0\<rparr>"

text \<open>A pit event that the lap loop can reach, and the configuration without the others.\<close>

definition reachable :: "RaceConfig \<Rightarrow> PitEvent \<Rightarrow> bool" where
  "reachable cfg e = (1 \<le> pe_lap e \<and> pe_lap e \<le> total_laps cfg)"

definition drop_unreachable_pits :: "RaceConfig \<Rightarrow> RaceConfig" where
  "drop_unreachable_pits cfg =
     cfg\<lparr>strategy := (\<lambda>n. map_option (filter (reachable cfg)) (strategy cfg n))\<rparr>"

text \<open>The step appended to the history of driver \<open>n\<close> at the end of lap \<open>j\<close>: built from the
  driver's state after the lap.\<close>

definition snapshot :: "LSTMLapTimeModel \<Rightarrow> RaceConfig \<Rightarrow> string \<Rightarrow> nat \<Rightarrow> step" where
  "snapshot M cfg n j =
     (case sim_upto M cfg j of
        Inl e \<Rightarrow> Map.empty
      | Inr s \<Rightarrow>
          (case state s n of
             None \<Rightarrow> Map.empty
           | Some d \<Rightarrow> mk_step cfg (int j) (is_sc (int j) (safety_cars cfg)) n d))"

text \<open>The encoder accepts a step: it raises nothing on it. It accepts every step that the
  engine can build for a configuration.\<close>

definition encodable :: "LSTMLapTimeModel \<Rightarrow> step \<Rightarrow> bool" where
  "encodable M x = (\<not> isl (build_single_inputs M [x]))"

definition steps_encodable :: "LSTMLapTimeModel \<Rightarrow> RaceConfig \<Rightarrow> bool" where
  "steps_encodable M cfg = (\<forall>l sc n d. encodable M (mk_step cfg l sc n d))"

text \<open>The two parts of a classification.\<close>

definition finished_part :: "class_entry list \<Rightarrow> class_entry list" where
  "finished_part cls = filter (\<lambda>e. cl_status e = Finished) cls"

definition dnf_part :: "class_entry list \<Rightarrow> class_entry list" where
  "dnf_part cls = filter (\<lambda>e. cl_status e = DNF) cls"

text \<open>Driver \<open>b\<close> retired no later than driver \<open>a\<close>: for every retirement entry of \<open>a\<close> on
  a lap \<open>l \<ge> 1\<close>, \<open>b\<close> has a retirement entry on one of the laps \<open>1..l\<close>.\<close>

definition retired_no_later :: "RaceConfig \<Rightarrow> string \<Rightarrow> string \<Rightarrow> bool" where
  "retired_no_later cfg a b =
     list_all (\<lambda>e. fst e = a \<and> 1 \<le> snd e \<longrightarrow>
                    list_ex (\<lambda>e'. fst e' = b \<and> 1 \<le> snd e' \<and> snd e' \<le> snd e) (dnfs cfg))
       (dnfs cfg)"

subsection \<open>Pit-loss estimator\<close>

text \<open>A row of the prepared data frame, as far as \<^verbatim>\<open>_estimate_pit_loss\<close> reads it: the value
  of the circuit column (\<open>None\<close> when missing; \<^verbatim>\<open>groupby\<close> drops such rows), the lap time
  in seconds and the flag \<^verbatim>\<open>pit_this_lap\<close>.\<close>

record lap_row =
  row_circuit :: "string option"
  lap_time_s :: real
  pit_this_lap :: bool

text \<open>The median of a pandas series: the middle element of the sorted values, the mean of
  the two middle elements when their number is even, and NaN (here \<open>None\<close>) when empty.\<close>

definition median :: "real list \<Rightarrow> real option" where
  "median xs =
     (if xs = [] then None
      else let ys = sort xs; n = length ys
           in Some (if odd n then ys ! (n div 2)
                    else (ys ! (n div 2 - 1) + ys ! (n div 2)) / 2))"

text \<open>The body of the loop over the groups, for one group \<open>g\<close>.\<close>

definition group_loss :: "lap_row list \<Rightarrow> real option" where
  "group_loss g =
     (let base = filter (\<lambda>r. \<not> pit_this_lap r) g;
          pits = filter pit_this_lap g
      in if base = [] \<or> pits = [] then None
         else
           (case median (map lap_time_s base) of
              None \<Rightarrow> None
            | Some med_base \<Rightarrow>
                (case median (map (\<lambda>r. lap_time_s r - med_base) pits) of
                   None \<Rightarrow> None
                 | Some loss \<Rightarrow> if 5 < loss \<and> loss < 60 then Some loss else None)))"

text \<open>\<^verbatim>\<open>_estimate_pit_loss\<close>; \<open>has_circ\<close> says whether the mapping has a circuit column.
  \<^verbatim>\<open>groupby\<close> visits every circuit once (in sorted order, which does not matter for the
  dict that is built).\<close>

definition estimate_pit_loss :: "bool \<Rightarrow> lap_row list \<Rightarrow> (string \<rightharpoonup> real)" where
  "estimate_pit_loss has_circ rows =
     (if \<not> has_circ then Map.empty
      else fold (\<lambda>c d. case group_loss (filter (\<lambda>r. row_circuit r = Some c) rows) of
                          None \<Rightarrow> d
                        | Some loss \<Rightarrow> d(c \<mapsto> loss))
             (remdups (List.map_filter row_circuit rows)) Map.empty)"

text \<open>Historical data for two circuits: at Monza the pit laps are about 20 seconds slower
  than the median non-pit lap, at Spa only 2 seconds.\<close>

definition demo_rows :: "lap_row list" where
  "demo_rows =
     [\<lparr>row_circuit = Some ''Monza'', lap_time_s = 90, pit_this_lap = False\<rparr>,
      \<lparr>row_circuit = Some ''Monza'', lap_time_s = 92, pit_this_lap = False\<rparr>,
      \<lparr>row_circuit = Some ''Monza'', lap_time_s = 110, pit_this_lap = True\<rparr>,
      \<lparr>row_circuit = Some ''Spa'', lap_time_s = 100, pit_this_lap = False\<rparr>,
      \<lparr>row_circuit = Some ''Monza'', lap_time_s = 91, pit_this_lap = False\<rparr>,
      \<lparr>row_circuit = Some ''Spa'', lap_time_s = 102, pit_this_lap = True\<rparr>,
      \<lparr>row_circuit = Some ''Monza'', lap_time_s = 112, pit_this_lap = True\<rparr>]"

section \<open>The loops of one lap\<close>

lemma fold_dnf_step_apply:
  "fold (dnf_step l) xs st n =
     (case st n of None \<Rightarrow> None
      | Some s \<Rightarrow> Some (if running s \<and> (n, l) \<in> set xs then s\<lparr>running := False\<rparr> else s))"
proof (induction xs arbitrary: st)
  case Nil
  show ?case by (simp split: option.splits)
next
  case (Cons x xs)
  obtain m k where x: "x = (m, k)" by (cases x)
  show ?case
    unfolding fold_simps Cons.IH
    by (auto simp: x dnf_step_def split: option.splits)
qed

lemma apply_dnfs_apply:
  "apply_dnfs cfg l st n =
     (case st n of None \<Rightarrow> None
      | Some s \<Rightarrow> Some (if running s \<and> (n, l) \<in> set (dnfs cfg) then s\<lparr>running := False\<rparr> else s))"
  unfolding apply_dnfs_def by (rule fold_dnf_step_apply)

lemma predict_laps_other:
  "predict_laps M cfg pl l sc st hs ns lts = Inr lts' \<Longrightarrow> n \<notin> set ns \<or> \<not> is_running st n \<Longrightarrow>
   lts' n = lts n"
proof (induction ns arbitrary: lts)
  case Nil
  then show ?case by simp
next
  case (Cons a ns)
  from Cons.prems show ?case
    by (auto simp: is_running_def Let_def split: option.splits if_splits sum.splits dest!: Cons.IH)
qed

lemma predict_laps_running:
  "predict_laps M cfg pl l sc st hs ns lts = Inr lts' \<Longrightarrow> n \<in> set ns \<Longrightarrow> st n = Some s \<Longrightarrow>
   running s \<Longrightarrow>
   \<exists>h ys. hs n = Some h \<and> predict_sequence M (h @ [mk_step cfg l sc n s]) = Inr ys \<and>
       length h < length ys \<and>
       lts' n = Some (ys ! length h + (if will_pit cfg n l then pl else 0))"
proof (induction ns arbitrary: lts)
  case Nil
  then show ?case by simp
next
  case (Cons a ns)
  show ?case
  proof (cases "n \<in> set ns")
    case True
    with Cons.prems Cons.IH show ?thesis
      by (auto simp: Let_def split: option.splits if_splits sum.splits)
  next
    case False
    with Cons.prems have a: "a = n" by simp
    from Cons.prems(1) obtain h ys y where h: "hs n = Some h"
      and ys: "predict_sequence M (h @ [mk_step cfg l sc n s]) = Inr ys"
      and y: "py_index ys (length h) = Inr y"
      and rest: "predict_laps M cfg pl l sc st hs ns
                   (lts(n \<mapsto> (if will_pit cfg n l then y + pl else y))) = Inr lts'"
      using Cons.prems(3,4) by (auto simp: a Let_def split: option.splits sum.splits)
    from predict_laps_other[OF rest] False
    have "lts' n = Some (if will_pit cfg n l then y + pl else y)" by simp
    with h ys y show ?thesis by (auto simp: py_index_def split: if_splits)
  qed
qed

lemma predict_laps_total:
  "(\<And>n s. n \<in> set ns \<Longrightarrow> \<exists>s. st n = Some s \<and> (running s \<longrightarrow> (\<exists>h ys. hs n = Some h \<and>
        predict_sequence M (h @ [mk_step cfg l sc n s]) = Inr ys \<and> length h < length ys))) \<Longrightarrow>
   \<exists>lts'. predict_laps M cfg pl l sc st hs ns lts = Inr lts'"
proof (induction ns arbitrary: lts)
  case Nil
  show ?case by simp
next
  case (Cons a ns)
  from Cons.prems[of a] obtain s where s: "st a = Some s"
    and h: "running s \<longrightarrow> (\<exists>h ys. hs a = Some h \<and>
        predict_sequence M (h @ [mk_step cfg l sc a s]) = Inr ys \<and> length h < length ys)" by auto
  have IH: "\<exists>lts'. predict_laps M cfg pl l sc st hs ns lts0 = Inr lts'" for lts0
    by (rule Cons.IH) (use Cons.prems in auto)
  show ?case
  proof (cases "running s")
    case False
    with s IH show ?thesis by simp
  next
    case True
    with h obtain hh ys where "hs a = Some hh"
      "predict_sequence M (hh @ [mk_step cfg l sc a s]) = Inr ys" "length hh < length ys" by auto
    with s True IH show ?thesis by (simp add: py_index_def Let_def)
  qed
qed

lemma will_pit_filter: "will_pit cfg n l \<longleftrightarrow> filter (\<lambda>e. pe_lap e = l) (strategy_get cfg n) \<noteq> []"
  by (simp add: will_pit_def list_ex_iff filter_empty_conv)

text \<open>The tyre loop keeps the key set and every field but compound and tyre age.\<close>

lemma update_tyres_keeps:
  "update_tyres cfg l ns st = Inr st' \<Longrightarrow>
   (case st n of None \<Rightarrow> st' n = None
    | Some s \<Rightarrow> \<exists>s'. st' n = Some s' \<and> running s' = running s \<and> total_time s' = total_time s \<and>
                    st_team s' = st_team s \<and> st_grid s' = st_grid s)"
proof (induction ns arbitrary: st)
  case Nil
  then show ?case by (simp split: option.splits)
next
  case (Cons a ns)
  from Cons.prems obtain s0 where s0: "st a = Some s0" by (auto split: option.splits)
  consider (skip) "update_tyres cfg l ns st = Inr st'"
    | (upd) s1 where "update_tyres cfg l ns (st(a \<mapsto> s1)) = Inr st'" "running s1 = running s0"
        "total_time s1 = total_time s0" "st_team s1 = st_team s0" "st_grid s1 = st_grid s0"
    using Cons.prems s0 by (auto split: if_splits list.splits)
  then show ?case
  proof cases
    case skip
    then show ?thesis by (rule Cons.IH)
  next
    case upd
    from Cons.IH[OF upd(1)] upd(2-) s0 show ?thesis
      by (cases "n = a") (auto split: option.splits)
  qed
qed

lemma update_tyres_apply:
  "update_tyres cfg l ns st = Inr st' \<Longrightarrow> distinct ns \<Longrightarrow>
   st' n = (case st n of None \<Rightarrow> None
            | Some s \<Rightarrow> Some (if n \<in> set ns \<and> running s then tyre_step cfg l n s else s))"
proof (induction ns arbitrary: st)
  case Nil
  then show ?case by (simp split: option.splits)
next
  case (Cons a ns)
  from Cons.prems obtain s0 where s0: "st a = Some s0" by (auto split: option.splits)
  show ?case
  proof (cases "running s0")
    case False
    with Cons.prems s0 have "update_tyres cfg l ns st = Inr st'" by simp
    from Cons.IH[OF this] Cons.prems(2) False s0 show ?thesis
      by (auto split: option.splits)
  next
    case True
    with Cons.prems s0 have "update_tyres cfg l ns (st(a \<mapsto> tyre_step cfg l a s0)) = Inr st'"
      by (auto simp: tyre_step_def split: if_splits list.splits)
    from Cons.IH[OF this] Cons.prems(2) True s0 show ?thesis
      by (auto split: option.splits)
  qed
qed

lemma update_tyres_total:
  "set ns \<subseteq> dom st \<Longrightarrow> \<exists>st'. update_tyres cfg l ns st = Inr st'"
proof (induction ns arbitrary: st)
  case Nil
  show ?case by simp
next
  case (Cons a ns)
  from Cons.prems obtain s0 where s0: "st a = Some s0" by auto
  have IH: "\<exists>st'. update_tyres cfg l ns (st(a \<mapsto> x)) = Inr st'" for x
    by (rule Cons.IH) (use Cons.prems in auto)
  have IH0: "\<exists>st'. update_tyres cfg l ns st = Inr st'"
    by (rule Cons.IH) (use Cons.prems in auto)
  show ?case using s0 IH IH0
    by (auto simp: will_pit_filter split: list.splits)
qed

text \<open>The history loop.\<close>

lemma push_length: "0 < m \<Longrightarrow> length (push m h x) \<le> m"
  by (simp add: push_def py_last_n_def)

lemma push_length_Suc: "length (push m h x) \<le> Suc (length h)"
  by (simp add: push_def py_last_n_def)

lemma push_history_dom:
  "push_history M cfg l sc st ns hs = Inr hs' \<Longrightarrow> dom hs' = dom hs"
proof (induction ns arbitrary: hs)
  case Nil
  then show ?case by simp
next
  case (Cons a ns)
  from Cons.prems obtain s0 where s0: "st a = Some s0" by (auto split: option.splits)
  show ?case
  proof (cases "running s0")
    case False
    with Cons.prems s0 have "push_history M cfg l sc st ns hs = Inr hs'" by simp
    then show ?thesis by (rule Cons.IH)
  next
    case True
    with Cons.prems s0 obtain h0 x where h0: "hs a = Some h0"
      and r: "push_history M cfg l sc st ns (hs(a \<mapsto> x)) = Inr hs'"
      by (auto split: option.splits)
    from Cons.IH[OF r] h0 show ?thesis by (auto split: if_splits)
  qed
qed

lemma push_history_bound:
  "push_history M cfg l sc st ns hs = Inr hs' \<Longrightarrow> 0 < max_len M \<Longrightarrow>
   (\<And>n h. hs n = Some h \<Longrightarrow> length h \<le> max_len M) \<Longrightarrow> hs' n = Some h' \<Longrightarrow>
   length h' \<le> max_len M"
proof (induction ns arbitrary: hs)
  case Nil
  then show ?case by simp
next
  case (Cons a ns)
  from Cons.prems(1) obtain s0 where s0: "st a = Some s0" by (auto split: option.splits)
  show ?case
  proof (cases "running s0")
    case False
    with Cons.prems(1) s0 have "push_history M cfg l sc st ns hs = Inr hs'" by simp
    from Cons.IH[OF this Cons.prems(2) _ Cons.prems(4)] Cons.prems(3) show ?thesis by blast
  next
    case True
    with Cons.prems(1) s0 obtain h0 where h0: "hs a = Some h0"
      and r: "push_history M cfg l sc st ns (hs(a \<mapsto> push (max_len M) h0 (mk_step cfg l sc a s0))) = Inr hs'"
      by (auto split: option.splits)
    show ?thesis
    proof (rule Cons.IH[OF r Cons.prems(2) _ Cons.prems(4)])
      fix n h
      assume "(hs(a \<mapsto> push (max_len M) h0 (mk_step cfg l sc a s0))) n = Some h"
      then show "length h \<le> max_len M"
        using Cons.prems(3)[of n h] push_length[OF Cons.prems(2)]
        by (auto split: if_splits)
    qed
  qed
qed

lemma push_history_apply:
  "push_history M cfg l sc st ns hs = Inr hs' \<Longrightarrow> distinct ns \<Longrightarrow>
   hs' n = (case st n of None \<Rightarrow> hs n
            | Some s \<Rightarrow> (if n \<in> set ns \<and> running s
                         then map_option (\<lambda>h. push (max_len M) h (mk_step cfg l sc n s)) (hs n)
                         else hs n))"
proof (induction ns arbitrary: hs)
  case Nil
  then show ?case by (simp split: option.splits)
next
  case (Cons a ns)
  from Cons.prems(1) obtain s0 where s0: "st a = Some s0" by (auto split: option.splits)
  show ?case
  proof (cases "running s0")
    case False
    with Cons.prems s0 have "push_history M cfg l sc st ns hs = Inr hs'" by simp
    from Cons.IH[OF this] Cons.prems(2) False s0 show ?thesis
      by (auto split: option.splits)
  next
    case True
    with Cons.prems(1) s0 obtain h0 where h0: "hs a = Some h0"
      and r: "push_history M cfg l sc st ns (hs(a \<mapsto> push (max_len M) h0 (mk_step cfg l sc a s0))) = Inr hs'"
      by (auto split: option.splits)
    from Cons.IH[OF r] Cons.prems(2) True s0 h0 show ?thesis
      by (auto split: option.splits)
  qed
qed

lemma push_history_total:
  "set ns \<subseteq> dom st \<Longrightarrow> set ns \<subseteq> dom hs \<Longrightarrow> \<exists>hs'. push_history M cfg l sc st ns hs = Inr hs'"
proof (induction ns arbitrary: hs)
  case Nil
  show ?case by simp
next
  case (Cons a ns)
  from Cons.prems obtain s0 h0 where s0: "st a = Some s0" "hs a = Some h0" by auto
  have IH: "\<exists>hs'. push_history M cfg l sc st ns (hs(a \<mapsto> x)) = Inr hs'" for x
    by (rule Cons.IH) (use Cons.prems in auto)
  have IH0: "\<exists>hs'. push_history M cfg l sc st ns hs = Inr hs'"
    by (rule Cons.IH) (use Cons.prems in auto)
  show ?case using s0 IH IH0 by auto
qed

text \<open>One lap, taken apart.\<close>

lemma lap_stepE:
  assumes "lap_step M cfg pl l s = Inr s'"
  obtains lts st3 hs where
    "predict_laps M cfg pl l (is_sc l (safety_cars cfg)) (apply_dnfs cfg l (state s)) (history s)
       (order s) Map.empty = Inr lts"
    "update_tyres cfg l (order s) (update_totals lts (apply_dnfs cfg l (state s))) = Inr st3"
    "push_history M cfg l (is_sc l (safety_cars cfg)) st3 (order s) (history s) = Inr hs"
    "s' = \<lparr>state = st3, history = hs,
           order = running_sorted st3 (order s) @ retired st3 (order s),
           timeline = timeline s @
             [\<lparr>tl_lap = l, tl_order = running_sorted st3 (order s), lap_times = lts,
               tl_is_sc = is_sc l (safety_cars cfg)\<rparr>]\<rparr>"
  using assms unfolding lap_step_def Let_def
  by (auto split: sum.splits)

section \<open>One lap as a whole\<close>

lemma lap_step_timeline:
  assumes "lap_step M cfg pl l s = Inr s'"
  shows "\<exists>e. timeline s' = timeline s @ [e] \<and> tl_lap e = l \<and>
             tl_is_sc e = is_sc l (safety_cars cfg) \<and>
             tl_order e = running_sorted (state s') (order s)"
  using assms by (elim lap_stepE) simp

lemma lap_step_order:
  assumes "lap_step M cfg pl l s = Inr s'"
  shows "order s' = running_sorted (state s') (order s) @ retired (state s') (order s)"
  using assms by (elim lap_stepE) simp

lemma lap_step_state:
  assumes "lap_step M cfg pl l s = Inr s'"
  shows "case state s n of
           None \<Rightarrow> state s' n = None
         | Some d \<Rightarrow> \<exists>d'. state s' n = Some d' \<and>
                      running d' = (running d \<and> (n, l) \<notin> set (dnfs cfg)) \<and>
                      total_time d' = total_time d + charged (last (timeline s')) n \<and>
                      st_team d' = st_team d \<and> st_grid d' = st_grid d"
proof -
  from assms obtain lts st3 hs where
    p: "predict_laps M cfg pl l (is_sc l (safety_cars cfg)) (apply_dnfs cfg l (state s)) (history s)
       (order s) Map.empty = Inr lts"
    and u: "update_tyres cfg l (order s) (update_totals lts (apply_dnfs cfg l (state s))) = Inr st3"
    and s': "state s' = st3" "last (timeline s') = \<lparr>tl_lap = l, tl_order = running_sorted st3 (order s),
              lap_times = lts, tl_is_sc = is_sc l (safety_cars cfg)\<rparr>"
    by (elim lap_stepE) simp
  show ?thesis
    using update_tyres_keeps[OF u, of n]
    by (auto simp: s' charged_def update_totals_def apply_dnfs_apply split: option.splits if_splits)
qed

lemma lap_step_running:
  assumes "lap_step M cfg pl l s = Inr s'"
  shows "is_running (state s') n \<longleftrightarrow> is_running (state s) n \<and> (n, l) \<notin> set (dnfs cfg)"
  using lap_step_state[OF assms, of n] by (auto simp: is_running_def split: option.splits)

lemma lap_step_time:
  assumes "lap_step M cfg pl l s = Inr s'"
  shows "time_of (state s') n = time_of (state s) n + (if n \<in> dom (state s) then charged (last (timeline s')) n else 0)"
  using lap_step_state[OF assms, of n] by (auto simp: time_of_def split: option.splits)

lemma lap_step_dom:
  assumes "lap_step M cfg pl l s = Inr s'"
  shows "dom (state s') = dom (state s)" "dom (history s') = dom (history s)"
proof -
  show "dom (state s') = dom (state s)"
  proof (rule set_eqI)
    fix n show "n \<in> dom (state s') \<longleftrightarrow> n \<in> dom (state s)"
      using lap_step_state[OF assms, of n] by (auto split: option.splits)
  qed
  from assms show "dom (history s') = dom (history s)"
    by (elim lap_stepE) (simp add: push_history_dom)
qed

text \<open>A lap time is recorded exactly for the drivers of the order that are still running
  once the retirements of the lap are applied.\<close>

lemma lap_step_lap_times_None:
  assumes "lap_step M cfg pl l s = Inr s'" "n \<notin> set (order s) \<or> \<not> is_running (state s') n"
  shows "lap_times (last (timeline s')) n = None"
proof -
  from assms(1) obtain lts st3 hs where
    p: "predict_laps M cfg pl l (is_sc l (safety_cars cfg)) (apply_dnfs cfg l (state s)) (history s)
       (order s) Map.empty = Inr lts"
    and s': "last (timeline s') = \<lparr>tl_lap = l, tl_order = running_sorted st3 (order s),
              lap_times = lts, tl_is_sc = is_sc l (safety_cars cfg)\<rparr>"
    by (elim lap_stepE) simp
  have "is_running (apply_dnfs cfg l (state s)) n \<longleftrightarrow> is_running (state s') n"
    unfolding lap_step_running[OF assms(1)]
    by (auto simp: is_running_def apply_dnfs_apply split: option.splits)
  with assms(2) have "n \<notin> set (order s) \<or> \<not> is_running (apply_dnfs cfg l (state s)) n" by simp
  from predict_laps_other[OF p this] show ?thesis by (simp add: s')
qed

lemma lap_step_lap_times_Some:
  assumes "lap_step M cfg pl l s = Inr s'" "n \<in> set (order s)" "state s n = Some d"
    "is_running (state s') n"
  shows "\<exists>h ys. history s n = Some h \<and>
           predict_sequence M (h @ [mk_step cfg l (is_sc l (safety_cars cfg)) n d]) = Inr ys \<and>
           length h < length ys \<and>
           lap_times (last (timeline s')) n =
             Some (ys ! length h + (if will_pit cfg n l then pl else 0))"
proof -
  from assms(1) obtain lts st3 hs where
    p: "predict_laps M cfg pl l (is_sc l (safety_cars cfg)) (apply_dnfs cfg l (state s)) (history s)
       (order s) Map.empty = Inr lts"
    and s': "last (timeline s') = \<lparr>tl_lap = l, tl_order = running_sorted st3 (order s),
              lap_times = lts, tl_is_sc = is_sc l (safety_cars cfg)\<rparr>"
    by (elim lap_stepE) simp
  from assms(3,4) have r: "running d" "(n, l) \<notin> set (dnfs cfg)"
    unfolding lap_step_running[OF assms(1)] by (auto simp: is_running_def)
  then have "apply_dnfs cfg l (state s) n = Some d"
    by (simp add: apply_dnfs_apply assms(3))
  from predict_laps_running[OF p assms(2) this r(1)] show ?thesis by (simp add: s')
qed

lemma mset_reorder: "mset (running_sorted st xs @ retired st xs) = mset xs"
  by (simp add: running_sorted_def retired_def)

lemma lap_step_mset_order:
  assumes "lap_step M cfg pl l s = Inr s'"
  shows "mset (order s') = mset (order s)"
  unfolding lap_step_order[OF assms] by (rule mset_reorder)

section \<open>Invariants of the lap loop\<close>

lemma init_fold_dom:
  "dom (fold (\<lambda>d st. st(name d \<mapsto> f d)) ds st0) = dom st0 \<union> name ` set ds"
  by (induction ds arbitrary: st0) auto

lemma init_sim_dom:
  "dom (state (init_sim cfg)) = set (roster cfg)" "dom (history (init_sim cfg)) = set (roster cfg)"
  "mset (order (init_sim cfg)) = mset (roster cfg)"
  by (simp_all add: init_sim_def init_state_def init_history_def roster_def init_fold_dom)

lemma init_state_running:
  "(\<And>s. st0 n = Some s \<Longrightarrow> running s \<and> total_time s = 0) \<Longrightarrow>
   fold (\<lambda>d st. st(name d \<mapsto> init_driver d)) ds st0 n = Some s \<Longrightarrow> running s \<and> total_time s = 0"
proof (induction ds arbitrary: st0)
  case Nil
  then show ?case by simp
next
  case (Cons a ds)
  show ?case
    by (rule Cons.IH[of "st0(name a \<mapsto> init_driver a)"])
       (use Cons.prems in \<open>auto simp: init_driver_def split: if_splits\<close>)
qed

lemma init_sim_running:
  "state (init_sim cfg) n = Some s \<Longrightarrow> running s \<and> total_time s = 0"
  using init_state_running[of Map.empty n "drivers cfg" s]
  by (simp add: init_sim_def init_state_def)

lemma sim_upto_dom:
  "sim_upto M cfg k = Inr s \<Longrightarrow>
   dom (state s) = set (roster cfg) \<and> dom (history s) = set (roster cfg) \<and>
   mset (order s) = mset (roster cfg)"
proof (induction k arbitrary: s)
  case 0
  then show ?case using init_sim_dom[of cfg] by auto
next
  case (Suc k)
  then obtain s0 where s0: "sim_upto M cfg k = Inr s0"
    and st: "lap_step M cfg (pit_loss_of M cfg) (int (Suc k)) s0 = Inr s"
    by (auto split: sum.splits)
  from Suc.IH[OF s0] lap_step_dom[OF st] lap_step_mset_order[OF st] show ?case by simp
qed

lemma sim_upto_set_order:
  "sim_upto M cfg k = Inr s \<Longrightarrow> set (order s) = set (roster cfg)"
  by (metis sim_upto_dom set_mset_mset)

lemma sim_upto_prefix:
  "sim_upto M cfg k = Inr s \<Longrightarrow> j \<le> k \<Longrightarrow> \<exists>s0. sim_upto M cfg j = Inr s0"
proof (induction k arbitrary: s)
  case 0
  then show ?case by simp
next
  case (Suc k)
  then show ?case by (cases "j = Suc k") (auto split: sum.splits)
qed

lemma sim_upto_Suc:
  "sim_upto M cfg (Suc k) = Inr s' \<Longrightarrow>
   \<exists>s. sim_upto M cfg k = Inr s \<and> lap_step M cfg (pit_loss_of M cfg) (int (Suc k)) s = Inr s'"
  by (auto split: sum.splits)

text \<open>Who is running after \<open>k\<close> laps.\<close>

lemma dnf_by_iff: "dnf_by cfg k n \<longleftrightarrow> (\<exists>l. (n, l) \<in> set (dnfs cfg) \<and> 1 \<le> l \<and> l \<le> int k)"
  by (force simp: dnf_by_def list_ex_iff)

lemma dnf_by_Suc:
  "dnf_by cfg (Suc k) n \<longleftrightarrow> dnf_by cfg k n \<or> (n, int (Suc k)) \<in> set (dnfs cfg)"
proof -
  have "1 \<le> l \<and> l \<le> int (Suc k) \<longleftrightarrow> (1 \<le> l \<and> l \<le> int k) \<or> l = int (Suc k)" for l
    by auto
  then show ?thesis unfolding dnf_by_iff by blast
qed

lemma sim_upto_running:
  "sim_upto M cfg k = Inr s \<Longrightarrow>
   is_running (state s) n \<longleftrightarrow> n \<in> set (roster cfg) \<and> \<not> dnf_by cfg k n"
proof (induction k arbitrary: s)
  case 0
  have "\<not> dnf_by cfg 0 n" by (auto simp: dnf_by_def list_ex_iff)
  moreover have "is_running (state (init_sim cfg)) n \<longleftrightarrow> n \<in> set (roster cfg)"
    using init_sim_dom(1)[of cfg] init_sim_running[of cfg n] domIff[of n "state (init_sim cfg)"]
    by (auto simp: is_running_def split: option.splits)
  ultimately show ?case using 0 by simp
next
  case (Suc k)
  from sim_upto_Suc[OF Suc.prems] obtain s0 where s0: "sim_upto M cfg k = Inr s0"
    and st: "lap_step M cfg (pit_loss_of M cfg) (int (Suc k)) s0 = Inr s" by blast
  show ?case
    unfolding lap_step_running[OF st] Suc.IH[OF s0] dnf_by_Suc by blast
qed

section \<open>The encoder and the prediction index\<close>

lemma mapM_length: "mapM f xs = Inr ys \<Longrightarrow> length ys = length xs"
  by (induction xs arbitrary: ys) (auto split: sum.splits)

lemma mapM_total: "(\<And>x. x \<in> set xs \<Longrightarrow> \<exists>y. f x = Inr y) \<Longrightarrow> \<exists>ys. mapM f xs = Inr ys"
proof (induction xs)
  case Nil
  show ?case by simp
next
  case (Cons a xs)
  from Cons.prems[of a] obtain y where y: "f a = Inr y" by auto
  from Cons.IH Cons.prems obtain ys where "mapM f xs = Inr ys" by auto
  with y show ?case by simp
qed

lemma mapM_single: "(\<exists>ys. mapM f [x] = Inr ys) \<longleftrightarrow> (\<exists>y. f x = Inr y)"
  by (auto split: sum.splits)

lemma py_last_n_single: "py_last_n (min (Suc 0) m) [x] = [x]"
  by (simp add: py_last_n_def min_def)

lemma set_py_last_n: "set (py_last_n n xs) \<subseteq> set xs"
  by (auto simp: py_last_n_def dest: in_set_dropD)

lemma build_single_inputs_length:
  assumes "build_single_inputs M hist = Inr X" "hist \<noteq> []"
  shows "length (driver_seq X) = (if max_len M = 0 then length hist else max_len M)"
proof -
  let ?L = "min (length hist) (max_len M)"
  from assms(1) obtain drv where d: "mapM (\<lambda>s. idx M ''driver'' (dget s ''driver'')) (py_last_n ?L hist) = Inr drv"
    and X: "driver_seq X = drv @ replicate (max_len M - ?L) 0"
    by (auto simp: build_single_inputs_def Let_def split: sum.splits)
  from mapM_length[OF d] have "length drv = length (py_last_n ?L hist)" .
  with X assms(2) show ?thesis
    by (auto simp: py_last_n_def min_def)
qed

lemma encodable_parts:
  assumes "encodable M x"
  shows "\<exists>y. idx M ''driver'' (dget x ''driver'') = Inr y"
    "\<exists>y. idx M ''team'' (dget x ''team'') = Inr y"
    "\<exists>y. idx M ''circuit'' (dget x ''circuit'') = Inr y"
    "\<exists>y. idx M ''compound'' (dget x ''compound'') = Inr y"
    "\<exists>y. mapM (\<lambda>k. num M k (dget x k)) (num_cols M) = Inr y"
  using assms
  unfolding encodable_def build_single_inputs_def Let_def length_Cons list.size py_last_n_single
  by (auto split: sum.splits)

lemma encodableI:
  assumes "\<exists>y. idx M ''driver'' (dget x ''driver'') = Inr y"
    "\<exists>y. idx M ''team'' (dget x ''team'') = Inr y"
    "\<exists>y. idx M ''circuit'' (dget x ''circuit'') = Inr y"
    "\<exists>y. idx M ''compound'' (dget x ''compound'') = Inr y"
    "\<exists>y. mapM (\<lambda>k. num M k (dget x k)) (num_cols M) = Inr y"
  shows "encodable M x"
  using assms
  unfolding encodable_def build_single_inputs_def Let_def length_Cons list.size py_last_n_single
  by auto

lemma build_single_inputs_total:
  assumes "\<And>x. x \<in> set hist \<Longrightarrow> encodable M x"
  shows "\<exists>X. build_single_inputs M hist = Inr X"
proof -
  let ?steps = "py_last_n (min (length hist) (max_len M)) hist"
  have e: "encodable M x" if "x \<in> set ?steps" for x
    using that set_py_last_n[of "min (length hist) (max_len M)" hist] assms by blast
  obtain a where a: "mapM (\<lambda>s. idx M ''driver'' (dget s ''driver'')) ?steps = Inr a"
    using mapM_total[of ?steps "\<lambda>s. idx M ''driver'' (dget s ''driver'')"] encodable_parts(1)[OF e]
    by blast
  obtain b where b: "mapM (\<lambda>s. idx M ''team'' (dget s ''team'')) ?steps = Inr b"
    using mapM_total[of ?steps "\<lambda>s. idx M ''team'' (dget s ''team'')"] encodable_parts(2)[OF e]
    by blast
  obtain c where c: "mapM (\<lambda>s. idx M ''circuit'' (dget s ''circuit'')) ?steps = Inr c"
    using mapM_total[of ?steps "\<lambda>s. idx M ''circuit'' (dget s ''circuit'')"] encodable_parts(3)[OF e]
    by blast
  obtain d where d: "mapM (\<lambda>s. idx M ''compound'' (dget s ''compound'')) ?steps = Inr d"
    using mapM_total[of ?steps "\<lambda>s. idx M ''compound'' (dget s ''compound'')"] encodable_parts(4)[OF e]
    by blast
  obtain r where r: "mapM (\<lambda>s. mapM (\<lambda>k. num M k (dget s k)) (num_cols M)) ?steps = Inr r"
    using mapM_total[of ?steps "\<lambda>s. mapM (\<lambda>k. num M k (dget s k)) (num_cols M)"]
      encodable_parts(5)[OF e]
    by blast
  show ?thesis
    unfolding build_single_inputs_def Let_def a b c d r by simp
qed

lemma predict_sequence_total:
  "(\<And>x. x \<in> set hist \<Longrightarrow> encodable M x) \<Longrightarrow> \<exists>ys. predict_sequence M hist = Inr ys"
  using build_single_inputs_total[of hist M] by (auto simp: predict_sequence_def)

lemma conforming_length:
  assumes "conforming M" "predict_sequence M (h @ [x]) = Inr ys"
  shows "length ys = (if max_len M = 0 then Suc (length h) else max_len M)"
proof -
  from assms(2) obtain X where X: "build_single_inputs M (h @ [x]) = Inr X" "ys = net M X"
    by (auto simp: predict_sequence_def split: sum.splits)
  from build_single_inputs_length[OF X(1)] assms(1) X(2) show ?thesis
    by (simp add: conforming_def)
qed

section \<open>Evaluating the simulation\<close>

lemmas sim_eval =
  simulate_def lap_step_def init_sim_def init_state_def init_history_def
  pit_loss_of_def apply_dnfs_def dnf_step_def predict_sequence_def build_single_inputs_def
  idx_def str_of_def num_def py_float_def dget_def base_step_def
  py_index_def py_last_n_def mk_step_def will_pit_def strategy_get_def update_totals_def push_def
  running_sorted_def retired_def is_running_def time_of_def grid_of_def init_driver_def classify_def
  numeral_2_eq_2 numeral_3_eq_3

lemma demo_run: "\<exists>res. simulate (demo_model 5) demo_cfg = Inr res"
  by (simp add: sim_eval demo_model_def demo_cfg_def)

lemma conforming_demo: "conforming (demo_model m)"
  by (simp add: conforming_def demo_model_def)

lemma const_predict:
  assumes "predict_sequence M (h @ [x]) = Inr ys" "length h < max_len M"
    "net M = (\<lambda>X. replicate (length (driver_seq X)) c)"
  shows "ys ! length h = c"
proof -
  from assms(1) obtain X where X: "build_single_inputs M (h @ [x]) = Inr X"
    and ys: "ys = net M X"
    by (auto simp: predict_sequence_def split: sum.splits)
  from build_single_inputs_length[OF X] assms(2) have "length (driver_seq X) = max_len M"
    by simp
  with ys assms(2,3) show ?thesis by simp
qed

lemma demo_predict:
  assumes "predict_sequence (demo_model m) (h @ [x]) = Inr ys" "length h < m"
  shows "ys ! length h = 90"
  using const_predict[OF assms(1), of 90] assms(2) by (simp add: demo_model_def)

text \<open>Without weather values every step of a race is encoded by the demonstration model:
  the categorical fields are strings and the numeric fields are integers or missing.\<close>

lemma steps_encodable_demo:
  assumes "weather_by_lap cfg = Map.empty" "default_weather cfg = Map.empty"
  shows "steps_encodable (demo_model m) cfg"
  unfolding steps_encodable_def
proof (intro allI encodableI)
  fix l sc n d
  let ?x = "mk_step cfg l sc n d"
  let ?M = "demo_model m"
  show "\<exists>y. idx ?M ''driver'' (dget ?x ''driver'') = Inr y"
    "\<exists>y. idx ?M ''team'' (dget ?x ''team'') = Inr y"
    "\<exists>y. idx ?M ''circuit'' (dget ?x ''circuit'') = Inr y"
    "\<exists>y. idx ?M ''compound'' (dget ?x ''compound'') = Inr y"
    by (simp_all add: idx_def demo_model_def)
  show "\<exists>y. mapM (\<lambda>k. num ?M k (dget ?x k)) (num_cols ?M) = Inr y"
    by (simp add: num_def py_float_def dget_def mk_step_def base_step_def assms demo_model_def)
qed

section \<open>Safety-car flag\<close>

lemma is_sc_iff: "is_sc l ws \<longleftrightarrow> (\<exists>(a, b) \<in> set ws. a \<le> l \<and> l \<le> b)"
  by (induction ws) auto

lemma sim_upto_timeline:
  "sim_upto M cfg k = Inr s \<Longrightarrow>
   map tl_lap (timeline s) = map int [1..<Suc k] \<and>
   (\<forall>e \<in> set (timeline s). tl_is_sc e = is_sc (tl_lap e) (safety_cars cfg))"
proof (induction k arbitrary: s)
  case 0
  then show ?case by (auto simp: init_sim_def)
next
  case (Suc k)
  from sim_upto_Suc[OF Suc.prems] obtain s0 where s0: "sim_upto M cfg k = Inr s0"
    and st: "lap_step M cfg (pit_loss_of M cfg) (int (Suc k)) s0 = Inr s" by blast
  from lap_step_timeline[OF st] obtain e where e: "timeline s = timeline s0 @ [e]"
    "tl_lap e = int (Suc k)" "tl_is_sc e = is_sc (int (Suc k)) (safety_cars cfg)" by blast
  from Suc.IH[OF s0] e show ?case by auto
qed

lemma last_push: "0 < m \<Longrightarrow> last (push m h x) = x"
  by (simp add: push_def py_last_n_def)

text \<open>
  C8. For every lap \<open>l\<close> the flag computed by \<open>is_sc\<close> is true exactly when \<open>l\<close> lies in at
  least one configured window \<open>[a, b]\<close>, endpoints included. In a completed simulation the
  timeline has one entry per lap \<open>1..total_laps\<close> and every entry records that flag. On
  every lap \<open>k + 1\<close> of a simulation with distinct driver names, for every driver still
  running on the lap, the snapshot handed to the predictor (the recorded lap time is the
  prediction on history plus that snapshot) and the snapshot stored in the history are
  both built with that flag. A snapshot carries the flag under the key \<open>is_sc\<close> (as 1 or 0)
  unless the weather override of the lap assigns that key itself.
\<close>

theorem safety_car_flag_iff_window:
  assumes "simulate M cfg = Inr res"
  shows "(is_sc l (safety_cars cfg) \<longleftrightarrow> (\<exists>(a, b) \<in> set (safety_cars cfg). a \<le> l \<and> l \<le> b)) \<and>
         map tl_lap (res_timeline res) = map int [1..<Suc (nat (total_laps cfg))] \<and>
         (\<forall>e \<in> set (res_timeline res).
            tl_is_sc e \<longleftrightarrow> (\<exists>(a, b) \<in> set (safety_cars cfg). a \<le> tl_lap e \<and> tl_lap e \<le> b)) \<and>
         (\<forall>k s s' m d.
            distinct (roster cfg) \<and> sim_upto M cfg k = Inr s \<and> sim_upto M cfg (Suc k) = Inr s' \<and>
            state s m = Some d \<and> is_running (state s') m \<longrightarrow>
            (\<exists>sc h ys d'.
               (sc \<longleftrightarrow> (\<exists>(a, b) \<in> set (safety_cars cfg). a \<le> int (Suc k) \<and> int (Suc k) \<le> b)) \<and>
               history s m = Some h \<and>
               predict_sequence M (h @ [mk_step cfg (int (Suc k)) sc m d]) = Inr ys \<and>
               lap_times (last (timeline s')) m =
                 Some (ys ! length h + (if will_pit cfg m (int (Suc k)) then pit_loss_of M cfg else 0)) \<and>
               state s' m = Some d' \<and>
               history s' m = Some (push (max_len M) h (mk_step cfg (int (Suc k)) sc m d')) \<and>
               ((\<forall>w. weather_by_lap cfg (int (Suc k)) = Some w \<longrightarrow> w ''is_sc'' = None) \<longrightarrow>
                  mk_step cfg (int (Suc k)) sc m d ''is_sc'' = Some (PInt (if sc then 1 else 0)) \<and>
                  mk_step cfg (int (Suc k)) sc m d' ''is_sc'' = Some (PInt (if sc then 1 else 0))))) \<and>
         ((\<forall>w. weather_by_lap cfg l = Some w \<longrightarrow> w ''is_sc'' = None) \<longrightarrow>
            mk_step cfg l (is_sc l (safety_cars cfg)) n d0 ''is_sc'' =
              Some (PInt (if (\<exists>(a, b) \<in> set (safety_cars cfg). a \<le> l \<and> l \<le> b) then 1 else 0)))"
proof -
  from assms obtain s where s: "sim_upto M cfg (nat (total_laps cfg)) = Inr s"
    and res: "res_timeline res = timeline s"
    by (auto simp: simulate_def split: sum.splits)
  have step: "mk_step cfg j sc m d ''is_sc'' = Some (PInt (if sc then 1 else 0))"
    if "\<forall>w. weather_by_lap cfg j = Some w \<longrightarrow> w ''is_sc'' = None" for sc j m d
    using that by (auto simp: mk_step_def base_step_def map_add_def split: option.splits)
  have run: "\<exists>sc h ys d'.
               (sc \<longleftrightarrow> (\<exists>(a, b) \<in> set (safety_cars cfg). a \<le> int (Suc k) \<and> int (Suc k) \<le> b)) \<and>
               history s0 m = Some h \<and>
               predict_sequence M (h @ [mk_step cfg (int (Suc k)) sc m d]) = Inr ys \<and>
               lap_times (last (timeline s')) m =
                 Some (ys ! length h + (if will_pit cfg m (int (Suc k)) then pit_loss_of M cfg else 0)) \<and>
               state s' m = Some d' \<and>
               history s' m = Some (push (max_len M) h (mk_step cfg (int (Suc k)) sc m d')) \<and>
               ((\<forall>w. weather_by_lap cfg (int (Suc k)) = Some w \<longrightarrow> w ''is_sc'' = None) \<longrightarrow>
                  mk_step cfg (int (Suc k)) sc m d ''is_sc'' = Some (PInt (if sc then 1 else 0)) \<and>
                  mk_step cfg (int (Suc k)) sc m d' ''is_sc'' = Some (PInt (if sc then 1 else 0)))"
    if h: "distinct (roster cfg)" "sim_upto M cfg k = Inr s0" "sim_upto M cfg (Suc k) = Inr s'"
      "state s0 m = Some d" "is_running (state s') m" for k s0 s' m d
  proof -
    let ?l = "int (Suc k)"
    let ?sc = "is_sc ?l (safety_cars cfg)"
    from h(2,3) have st: "lap_step M cfg (pit_loss_of M cfg) ?l s0 = Inr s'" by simp
    from sim_upto_dom[OF h(2)] h(1) have dist: "distinct (order s0)"
      by (metis mset_eq_imp_distinct_iff)
    from sim_upto_dom[OF h(2)] sim_upto_set_order[OF h(2)] h(4)
    have mem: "m \<in> set (order s0)" by auto
    from lap_step_lap_times_Some[OF st mem h(4,5)] obtain hh ys where hh: "history s0 m = Some hh"
      and ys: "predict_sequence M (hh @ [mk_step cfg ?l ?sc m d]) = Inr ys"
      and lt: "lap_times (last (timeline s')) m =
                 Some (ys ! length hh + (if will_pit cfg m ?l then pit_loss_of M cfg else 0))"
      by blast
    from h(5) obtain d' where d': "state s' m = Some d'" "running d'"
      by (auto simp: is_running_def split: option.splits)
    from st have
      p: "push_history M cfg ?l ?sc (state s') (order s0) (history s0) = Inr (history s')"
      by (elim lap_stepE) simp
    from push_history_apply[OF p dist, of m] d' mem hh
    have hs: "history s' m = Some (push (max_len M) hh (mk_step cfg ?l ?sc m d'))" by simp
    show ?thesis
      using hh ys lt d'(1) hs step[of ?l ?sc m] is_sc_iff[of ?l "safety_cars cfg"]
      by (intro exI[of _ ?sc] exI[of _ hh] exI[of _ ys] exI[of _ d']) simp
  qed
  from sim_upto_timeline[OF s] step[of l "is_sc l (safety_cars cfg)" n d0] run show ?thesis
    unfolding res is_sc_iff by (intro conjI allI impI ballI) (blast | simp)+
qed

theorem safety_car_flag_iff_window_witness:
  "\<exists>res s1 s2 h2.
     simulate (demo_model 5) demo_cfg = Inr res \<and>
     map tl_lap (res_timeline res) = [1, 2, 3] \<and>
     (\<forall>e \<in> set (res_timeline res). tl_is_sc e \<longleftrightarrow> tl_lap e = 2) \<and>
     mk_step demo_cfg 2 (is_sc 2 (safety_cars demo_cfg)) ''A'' (init_driver (hd (drivers demo_cfg)))
       ''is_sc'' = Some (PInt 1) \<and>
     distinct (roster demo_cfg) \<and>
     sim_upto (demo_model 5) demo_cfg 1 = Inr s1 \<and> sim_upto (demo_model 5) demo_cfg 2 = Inr s2 \<and>
     is_running (state s2) ''A'' \<and>
     lap_times (last (timeline s2)) ''A'' = Some 112 \<and>
     history s2 ''A'' = Some h2 \<and> last h2 ''is_sc'' = Some (PInt 1)"
proof -
  let ?M = "demo_model 5"
  from demo_run obtain res where r: "simulate ?M demo_cfg = Inr res" by blast
  have w: "\<forall>w. weather_by_lap demo_cfg l = Some w \<longrightarrow> w ''is_sc'' = None" for l
    by (simp add: demo_cfg_def)
  have c: "safety_cars demo_cfg = [(2, 2)]" "total_laps demo_cfg = 3" by (simp_all add: demo_cfg_def)
  have c': "distinct (roster demo_cfg)" "will_pit demo_cfg ''A'' (int (Suc (Suc 0)))"
    "pit_loss_of ?M demo_cfg = 22" "0 < max_len ?M"
    by (simp_all add: roster_def demo_cfg_def will_pit_def strategy_get_def pit_loss_of_def
          demo_model_def)
  have u: "map int [1..<Suc (nat 3)] = [1, 2, 3]" by code_simp
  note T = safety_car_flag_iff_window[OF r, of 2 "''A''" "init_driver (hd (drivers demo_cfg))"]
  from T w[of 2]
  have a: "map tl_lap (res_timeline res) = [1, 2, 3] \<and>
        (\<forall>e \<in> set (res_timeline res). tl_is_sc e \<longleftrightarrow> tl_lap e = 2) \<and>
        mk_step demo_cfg 2 (is_sc 2 (safety_cars demo_cfg)) ''A'' (init_driver (hd (drivers demo_cfg)))
          ''is_sc'' = Some (PInt 1)"
    unfolding c u by (auto simp: antisym)
  have "\<exists>s1 s2 d. sim_upto ?M demo_cfg (Suc 0) = Inr s1 \<and> sim_upto ?M demo_cfg (Suc (Suc 0)) = Inr s2 \<and>
          state s1 ''A'' = Some d \<and> is_running (state s2) ''A'' \<and>
          map_option length (history s1 ''A'') = Some 1"
    by (simp add: sim_eval demo_model_def demo_cfg_def)
  then obtain s1 s2 d where s: "sim_upto ?M demo_cfg (Suc 0) = Inr s1"
    "sim_upto ?M demo_cfg (Suc (Suc 0)) = Inr s2" "state s1 ''A'' = Some d"
    "is_running (state s2) ''A''" "map_option length (history s1 ''A'') = Some 1"
    by (elim exE conjE)
  from T have "\<forall>k s s' m d.
            distinct (roster demo_cfg) \<and> sim_upto ?M demo_cfg k = Inr s \<and>
            sim_upto ?M demo_cfg (Suc k) = Inr s' \<and>
            state s m = Some d \<and> is_running (state s') m \<longrightarrow>
            (\<exists>sc h ys d'.
               (sc \<longleftrightarrow> (\<exists>(a, b) \<in> set (safety_cars demo_cfg). a \<le> int (Suc k) \<and> int (Suc k) \<le> b)) \<and>
               history s m = Some h \<and>
               predict_sequence ?M (h @ [mk_step demo_cfg (int (Suc k)) sc m d]) = Inr ys \<and>
               lap_times (last (timeline s')) m =
                 Some (ys ! length h + (if will_pit demo_cfg m (int (Suc k)) then pit_loss_of ?M demo_cfg else 0)) \<and>
               state s' m = Some d' \<and>
               history s' m = Some (push (max_len ?M) h (mk_step demo_cfg (int (Suc k)) sc m d')) \<and>
               ((\<forall>w. weather_by_lap demo_cfg (int (Suc k)) = Some w \<longrightarrow> w ''is_sc'' = None) \<longrightarrow>
                  mk_step demo_cfg (int (Suc k)) sc m d ''is_sc'' = Some (PInt (if sc then 1 else 0)) \<and>
                  mk_step demo_cfg (int (Suc k)) sc m d' ''is_sc'' = Some (PInt (if sc then 1 else 0))))"
    by (elim conjE)
  note R = this[rule_format, of "Suc 0" s1 s2 "''A''" d]
  have "distinct (roster demo_cfg) \<and> sim_upto ?M demo_cfg (Suc 0) = Inr s1 \<and>
        sim_upto ?M demo_cfg (Suc (Suc 0)) = Inr s2 \<and>
        state s1 ''A'' = Some d \<and> is_running (state s2) ''A''"
    using c'(1) s(1-4) by (intro conjI)
  from R[OF this] obtain sc h ys d' where b:
    "sc \<longleftrightarrow> (\<exists>(a, b) \<in> set (safety_cars demo_cfg). a \<le> int (Suc (Suc 0)) \<and> int (Suc (Suc 0)) \<le> b)"
    "history s1 ''A'' = Some h"
    "predict_sequence ?M (h @ [mk_step demo_cfg (int (Suc (Suc 0))) sc ''A'' d]) = Inr ys"
    "lap_times (last (timeline s2)) ''A'' =
       Some (ys ! length h + (if will_pit demo_cfg ''A'' (int (Suc (Suc 0))) then pit_loss_of ?M demo_cfg else 0))"
    "state s2 ''A'' = Some d'"
    "history s2 ''A'' = Some (push (max_len ?M) h (mk_step demo_cfg (int (Suc (Suc 0))) sc ''A'' d'))"
    "(\<forall>w. weather_by_lap demo_cfg (int (Suc (Suc 0))) = Some w \<longrightarrow> w ''is_sc'' = None) \<longrightarrow>
       mk_step demo_cfg (int (Suc (Suc 0))) sc ''A'' d ''is_sc'' = Some (PInt (if sc then 1 else 0)) \<and>
       mk_step demo_cfg (int (Suc (Suc 0))) sc ''A'' d' ''is_sc'' = Some (PInt (if sc then 1 else 0))"
    by (elim exE conjE)
  from b(1) have sc: sc by (simp add: c)
  from b(2) s(5) have lh: "length h = 1" by simp
  from demo_predict[OF b(3)] lh have "ys ! length h = 90" by simp
  with b(4) c'(2,3) have lt: "lap_times (last (timeline s2)) ''A'' = Some 112" by simp
  from b(7) w[of "int (Suc (Suc 0))"] sc
  have "mk_step demo_cfg (int (Suc (Suc 0))) sc ''A'' d' ''is_sc'' = Some (PInt 1)" by simp
  with last_push[OF c'(4)]
  have l: "last (push (max_len ?M) h (mk_step demo_cfg (int (Suc (Suc 0))) sc ''A'' d')) ''is_sc'' =
           Some (PInt 1)" by simp
  have n: "sim_upto ?M demo_cfg 1 = Inr s1" "sim_upto ?M demo_cfg 2 = Inr s2"
    using s(1,2) by (simp_all only: One_nat_def numeral_2_eq_2)
  from r a c'(1) n s(4) lt b(6) l show ?thesis
    by (intro exI[of _ res] exI[of _ s1] exI[of _ s2]
          exI[of _ "push (max_len ?M) h (mk_step demo_cfg (int (Suc (Suc 0))) sc ''A'' d')"]) simp
qed

section \<open>Running to completion\<close>

lemma init_history_empty:
  "(\<And>h. hs0 n = Some h \<Longrightarrow> h = []) \<Longrightarrow>
   fold (\<lambda>d hs. hs(name d \<mapsto> [])) ds hs0 n = Some h \<Longrightarrow> h = []"
proof (induction ds arbitrary: hs0)
  case Nil
  then show ?case by simp
next
  case (Cons a ds)
  show ?case
    by (rule Cons.IH[of "hs0(name a \<mapsto> [])"]) (use Cons.prems in \<open>auto split: if_splits\<close>)
qed

lemma sim_upto_history_length:
  "sim_upto M cfg k = Inr s \<Longrightarrow> distinct (roster cfg) \<Longrightarrow> history s n = Some h \<Longrightarrow>
   length h \<le> k"
proof (induction k arbitrary: s h)
  case 0
  from 0 have "fold (\<lambda>d hs. hs(name d \<mapsto> [])) (drivers cfg) Map.empty n = Some h"
    by (auto simp: init_sim_def init_history_def)
  from init_history_empty[OF _ this] show ?case by simp
next
  case (Suc k)
  from sim_upto_Suc[OF Suc.prems(1)] obtain s0 where s0: "sim_upto M cfg k = Inr s0"
    and st: "lap_step M cfg (pit_loss_of M cfg) (int (Suc k)) s0 = Inr s" by blast
  from sim_upto_dom[OF s0] Suc.prems(2) have d: "distinct (order s0)"
    by (metis mset_eq_imp_distinct_iff)
  from st obtain st3 where
    p: "push_history M cfg (int (Suc k)) (is_sc (int (Suc k)) (safety_cars cfg)) st3 (order s0)
          (history s0) = Inr (history s)"
    by (elim lap_stepE) simp
  from push_history_apply[OF p d, of n] Suc.prems(3)
  have "history s0 n = Some h \<or> (\<exists>h0 x. history s0 n = Some h0 \<and> h = push (max_len M) h0 x)"
    by (cases "history s0 n"; cases "st3 n") (auto split: if_splits)
  then consider "history s0 n = Some h"
    | h0 x where "history s0 n = Some h0" "h = push (max_len M) h0 x"
    by blast
  then show ?case
  proof cases
    case 1
    from Suc.IH[OF s0 Suc.prems(2) this] show ?thesis by simp
  next
    case 2
    from Suc.IH[OF s0 Suc.prems(2) 2(1)] push_length_Suc[of "max_len M" h0 x] 2(2)
    show ?thesis by simp
  qed
qed

lemma push_history_pred:
  "push_history M cfg l sc st ns hs = Inr hs' \<Longrightarrow>
   (\<And>n h x. hs n = Some h \<Longrightarrow> x \<in> set h \<Longrightarrow> P x) \<Longrightarrow>
   (\<And>n d. P (mk_step cfg l sc n d)) \<Longrightarrow> hs' n = Some h' \<Longrightarrow> x \<in> set h' \<Longrightarrow> P x"
proof (induction ns arbitrary: hs)
  case Nil
  then show ?case by auto
next
  case (Cons a ns)
  from Cons.prems(1) obtain s0 where s0: "st a = Some s0" by (auto split: option.splits)
  show ?case
  proof (cases "running s0")
    case False
    with Cons.prems(1) s0 have "push_history M cfg l sc st ns hs = Inr hs'" by simp
    from Cons.IH[OF this _ Cons.prems(3,4,5)] Cons.prems(2) show ?thesis by blast
  next
    case True
    with Cons.prems(1) s0 obtain h0 where h0: "hs a = Some h0"
      and r: "push_history M cfg l sc st ns (hs(a \<mapsto> push (max_len M) h0 (mk_step cfg l sc a s0))) = Inr hs'"
      by (auto split: option.splits)
    show ?thesis
    proof (rule Cons.IH[OF r _ Cons.prems(3,4,5)])
      fix n h y
      assume a: "(hs(a \<mapsto> push (max_len M) h0 (mk_step cfg l sc a s0))) n = Some h" "y \<in> set h"
      show "P y"
      proof (cases "n = a")
        case False
        with a Cons.prems(2) show ?thesis by auto
      next
        case True
        with a have "y \<in> set (h0 @ [mk_step cfg l sc a s0])"
          using set_py_last_n[of "max_len M" "h0 @ [mk_step cfg l sc a s0]"]
          by (auto simp: push_def)
        with Cons.prems(2)[OF h0] Cons.prems(3) show ?thesis by auto
      qed
    qed
  qed
qed

lemma sim_upto_history_encodable:
  "sim_upto M cfg k = Inr s \<Longrightarrow> steps_encodable M cfg \<Longrightarrow> history s n = Some h \<Longrightarrow>
   x \<in> set h \<Longrightarrow> encodable M x"
proof (induction k arbitrary: s n h x)
  case 0
  from 0 have "fold (\<lambda>d hs. hs(name d \<mapsto> [])) (drivers cfg) Map.empty n = Some h"
    by (auto simp: init_sim_def init_history_def)
  from init_history_empty[OF _ this] 0(4) show ?case by simp
next
  case (Suc k)
  from sim_upto_Suc[OF Suc.prems(1)] obtain s0 where s0: "sim_upto M cfg k = Inr s0"
    and st: "lap_step M cfg (pit_loss_of M cfg) (int (Suc k)) s0 = Inr s" by blast
  from st obtain st3 where
    p: "push_history M cfg (int (Suc k)) (is_sc (int (Suc k)) (safety_cars cfg)) st3 (order s0)
          (history s0) = Inr (history s)"
    by (elim lap_stepE) simp
  show ?case
  proof (rule push_history_pred[OF p _ _ Suc.prems(3,4)])
    show "encodable M y" if "history s0 m = Some g" "y \<in> set g" for m g y
      using Suc.IH[OF s0 Suc.prems(2) that] .
    show "encodable M (mk_step cfg (int (Suc k)) (is_sc (int (Suc k)) (safety_cars cfg)) m d)" for m d
      using Suc.prems(2) by (simp add: steps_encodable_def)
  qed
qed

lemma lap_step_total:
  assumes o: "set (order s) \<subseteq> dom (state s)" "set (order s) \<subseteq> dom (history s)"
    and h: "\<And>n h d. history s n = Some h \<Longrightarrow>
              \<exists>ys. predict_sequence M (h @ [mk_step cfg l (is_sc l (safety_cars cfg)) n d]) = Inr ys \<and>
                   length h < length ys"
  shows "\<exists>s'. lap_step M cfg pl l s = Inr s'"
proof -
  let ?st1 = "apply_dnfs cfg l (state s)"
  let ?sc = "is_sc l (safety_cars cfg)"
  have d1: "dom ?st1 = dom (state s)"
    by (auto simp: apply_dnfs_apply dom_def split: option.splits)
  have "\<exists>s0. ?st1 n = Some s0 \<and> (running s0 \<longrightarrow> (\<exists>h ys. history s n = Some h \<and>
        predict_sequence M (h @ [mk_step cfg l ?sc n s0]) = Inr ys \<and> length h < length ys))"
    if "n \<in> set (order s)" for n
  proof -
    from that o d1 obtain s0 h0 where "?st1 n = Some s0" "history s n = Some h0" by blast
    with h[of n h0 s0] show ?thesis by auto
  qed
  from predict_laps_total[of "order s" ?st1 "history s" M cfg l ?sc pl Map.empty, OF this]
  obtain lts where p: "predict_laps M cfg pl l ?sc ?st1 (history s) (order s) Map.empty = Inr lts"
    by blast
  have d2: "dom (update_totals lts ?st1) = dom (state s)"
    unfolding d1[symmetric] by (auto simp: update_totals_def dom_def split: option.splits)
  from update_tyres_total[of "order s" "update_totals lts ?st1" cfg l] o(1) d2
  obtain st3 where u: "update_tyres cfg l (order s) (update_totals lts ?st1) = Inr st3" by auto
  have "n \<in> dom st3" if "n \<in> dom (state s)" for n
    using update_tyres_keeps[OF u, of n] that d2 by (auto split: option.splits)
  with o(1) have "set (order s) \<subseteq> dom st3" by blast
  from push_history_total[OF this o(2), of M cfg l ?sc]
  obtain hs where "push_history M cfg l ?sc st3 (order s) (history s) = Inr hs" by blast
  with p u show ?thesis by (simp add: lap_step_def)
qed

lemma sim_upto_predict_ok:
  assumes "sim_upto M cfg k = Inr s" "steps_encodable M cfg" "history s n = Some h"
  shows "\<exists>ys. predict_sequence M (h @ [mk_step cfg l sc m d]) = Inr ys"
proof (rule predict_sequence_total)
  fix x assume "x \<in> set (h @ [mk_step cfg l sc m d])"
  then consider "x \<in> set h" | "x = mk_step cfg l sc m d" by auto
  then show "encodable M x"
  proof cases
    case 1
    from sim_upto_history_encodable[OF assms this] show ?thesis .
  next
    case 2
    with assms(2) show ?thesis by (simp add: steps_encodable_def)
  qed
qed

lemma sim_upto_total:
  assumes "conforming M" "distinct (roster cfg)" "steps_encodable M cfg"
  shows "k \<le> max_len M \<Longrightarrow> \<exists>s. sim_upto M cfg k = Inr s"
proof (induction k)
  case 0
  show ?case by simp
next
  case (Suc k)
  then obtain s where s: "sim_upto M cfg k = Inr s" by auto
  from sim_upto_dom[OF s] have o: "set (order s) \<subseteq> dom (state s)" "set (order s) \<subseteq> dom (history s)"
    by (metis set_mset_mset subset_refl)+
  have "\<exists>ys. predict_sequence M (h @ [mk_step cfg (int (Suc k)) (is_sc (int (Suc k)) (safety_cars cfg)) n d]) = Inr ys \<and>
          length h < length ys" if "history s n = Some h" for n h d
  proof -
    from sim_upto_predict_ok[OF s assms(3) that] obtain ys where
      ys: "predict_sequence M (h @ [mk_step cfg (int (Suc k)) (is_sc (int (Suc k)) (safety_cars cfg)) n d]) = Inr ys"
      by blast
    from conforming_length[OF assms(1) ys] sim_upto_history_length[OF s assms(2) that] Suc.prems
    have "length h < length ys" by (simp split: if_splits)
    with ys show ?thesis by blast
  qed
  from lap_step_total[OF o this, where pl = "pit_loss_of M cfg"] s
  show ?case by simp
qed

section \<open>The classification loops\<close>

lemma classify_running_drivers:
  "set xs \<subseteq> dom st \<Longrightarrow> map driver (classify_running st p xs) = filter (is_running st) xs"
  by (induction xs arbitrary: p) (auto simp: is_running_def split: option.splits)

lemma classify_dnf_drivers:
  "set xs \<subseteq> dom st \<Longrightarrow> map driver (classify_dnf st xs) = filter (\<lambda>n. \<not> is_running st n) xs"
  by (induction xs) (auto simp: is_running_def split: option.splits)

lemma classify_mset:
  "set (order s) \<subseteq> dom (state s) \<Longrightarrow> mset (map driver (classify s)) = mset (order s)"
  by (simp add: classify_def classify_running_drivers classify_dnf_drivers)

lemma sim_upto_order_dom:
  "sim_upto M cfg k = Inr s \<Longrightarrow> set (order s) \<subseteq> dom (state s)"
  using sim_upto_dom[of M cfg k s] sim_upto_set_order[of M cfg k s] by simp

section \<open>Configurations are not validated\<close>

lemma predict_laps_cong:
  assumes "mk_step cfg' l = mk_step cfg l" "\<And>n. will_pit cfg' n l = will_pit cfg n l"
  shows "predict_laps M cfg' pl l sc st hs ns lts = predict_laps M cfg pl l sc st hs ns lts"
proof (induction ns arbitrary: lts)
  case Nil
  show ?case by simp
next
  case (Cons a ns)
  show ?case unfolding predict_laps.simps assms Cons.IH ..
qed

lemma update_tyres_cong:
  assumes "\<And>n. filter (\<lambda>e. pe_lap e = l) (strategy_get cfg' n) =
                filter (\<lambda>e. pe_lap e = l) (strategy_get cfg n)"
  shows "update_tyres cfg' l ns st = update_tyres cfg l ns st"
proof (induction ns arbitrary: st)
  case Nil
  show ?case by simp
next
  case (Cons a ns)
  show ?case unfolding update_tyres.simps will_pit_filter assms Cons.IH ..
qed

lemma push_history_cong:
  assumes "mk_step cfg' l = mk_step cfg l"
  shows "push_history M cfg' l sc st ns hs = push_history M cfg l sc st ns hs"
proof (induction ns arbitrary: hs)
  case Nil
  show ?case by simp
next
  case (Cons a ns)
  show ?case unfolding push_history.simps assms Cons.IH ..
qed

lemma mk_step_drop: "mk_step (drop_unreachable_pits cfg) = mk_step cfg"
  by (simp add: fun_eq_iff mk_step_def base_step_def drop_unreachable_pits_def
        cong: option.case_cong)

lemma strategy_get_drop:
  "strategy_get (drop_unreachable_pits cfg) n = filter (reachable cfg) (strategy_get cfg n)"
  by (simp add: strategy_get_def drop_unreachable_pits_def split: option.splits)

lemma filter_lap_drop:
  assumes "1 \<le> l" "l \<le> total_laps cfg"
  shows "filter (\<lambda>e. pe_lap e = l) (strategy_get (drop_unreachable_pits cfg) n) =
         filter (\<lambda>e. pe_lap e = l) (strategy_get cfg n)"
  unfolding strategy_get_drop filter_filter
  using assms by (auto intro!: filter_cong simp: reachable_def)

lemma lap_step_drop:
  assumes "1 \<le> l" "l \<le> total_laps cfg"
  shows "lap_step M (drop_unreachable_pits cfg) pl l s = lap_step M cfg pl l s"
proof -
  have w: "will_pit (drop_unreachable_pits cfg) n l = will_pit cfg n l" for n
    by (simp add: will_pit_filter filter_lap_drop[OF assms])
  have m: "mk_step (drop_unreachable_pits cfg) l = mk_step cfg l"
    by (simp add: mk_step_drop)
  have a: "apply_dnfs (drop_unreachable_pits cfg) l = apply_dnfs cfg l"
    by (simp add: fun_eq_iff apply_dnfs_def drop_unreachable_pits_def)
  have sc: "safety_cars (drop_unreachable_pits cfg) = safety_cars cfg"
    by (simp add: drop_unreachable_pits_def)
  show ?thesis
    unfolding lap_step_def a sc predict_laps_cong[OF m w]
      update_tyres_cong[OF filter_lap_drop[OF assms]] push_history_cong[OF m] ..
qed

lemma sim_upto_drop:
  "k \<le> nat (total_laps cfg) \<Longrightarrow> sim_upto M (drop_unreachable_pits cfg) k = sim_upto M cfg k"
proof (induction k)
  case 0
  show ?case by (simp add: init_sim_def drop_unreachable_pits_def)
next
  case (Suc k)
  then have l: "1 \<le> int (Suc k)" "int (Suc k) \<le> total_laps cfg" by simp_all
  have p: "pit_loss_of M (drop_unreachable_pits cfg) = pit_loss_of M cfg"
    by (simp add: pit_loss_of_def drop_unreachable_pits_def split: option.splits)
  from Suc have "sim_upto M (drop_unreachable_pits cfg) k = sim_upto M cfg k" by simp
  then show ?case
    unfolding sim_upto.simps p lap_step_drop[OF l] by (rule arg_cong)
qed

lemma classify_dnf_all_running:
  "(\<And>n s. st n = Some s \<Longrightarrow> running s) \<Longrightarrow> classify_dnf st xs = []"
  by (induction xs) (auto split: option.splits)

lemma classify_running_at_start:
  "(\<And>n s. st n = Some s \<Longrightarrow> running s \<and> total_time s = 0) \<Longrightarrow>
   e \<in> set (classify_running st p xs) \<Longrightarrow> cl_status e = Finished \<and> cl_total_time e = 0"
  by (induction xs arbitrary: p) (auto split: option.splits if_splits)

lemma classify_init_sim:
  "map driver (classify (init_sim cfg)) = order (init_sim cfg)"
  "e \<in> set (classify (init_sim cfg)) \<Longrightarrow> cl_status e = Finished \<and> cl_total_time e = 0"
proof -
  let ?s = "init_sim cfg"
  have r: "running s \<and> total_time s = 0" if "state ?s n = Some s" for n s
    using init_sim_running[OF that] .
  then have d: "classify_dnf (state ?s) (order ?s) = []"
    by (intro classify_dnf_all_running) blast
  have sub: "set (order ?s) \<subseteq> dom (state ?s)"
    using init_sim_dom(1,3)[of cfg] by (metis set_mset_mset subset_refl)
  have "filter (is_running (state ?s)) (order ?s) = order ?s"
    using sub r by (auto simp: filter_id_conv is_running_def split: option.splits)
  with classify_running_drivers[OF sub, of 1] d
  show "map driver (classify ?s) = order ?s" by (simp add: classify_def)
  show "cl_status e = Finished \<and> cl_total_time e = 0" if "e \<in> set (classify ?s)"
    using that d classify_running_at_start[of "state ?s" e 1 "order ?s"] r
    by (auto simp: classify_def)
qed

text \<open>
  C3, as the code has it. Neither \<open>RaceConfig\<close> nor \<open>simulate\<close> checks the configuration, and
  none of the three conditions raises an error. With \<open>total_laps < 1\<close> the lap loop runs no
  lap and \<open>simulate\<close> returns a result: the timeline is empty and every driver is classified
  Finished with cumulative time 0, in the starting order. Pit events on a lap outside
  \<open>1..total_laps\<close> never fire: the outcome of the simulation, result or error, is the one of
  the configuration without them. Duplicate grid positions are accepted: the starting order
  holds every driver, sorted by grid position, and drivers that share a grid position start
  in the order of the roster.
\<close>

theorem invalid_configuration_not_detected:
  "(total_laps cfg < 1 \<longrightarrow>
      simulate M cfg =
        Inr \<lparr>classification = classify (init_sim cfg), res_timeline = [],
             pit_loss_used = pit_loss_of M cfg\<rparr> \<and>
      map driver (classify (init_sim cfg)) = order (init_sim cfg) \<and>
      (\<forall>e \<in> set (classify (init_sim cfg)). cl_status e = Finished \<and> cl_total_time e = 0)) \<and>
   simulate M (drop_unreachable_pits cfg) = simulate M cfg \<and>
   mset (order (init_sim cfg)) = mset (roster cfg) \<and>
   sorted (map (grid_of (init_state (drivers cfg))) (order (init_sim cfg))) \<and>
   (\<forall>g. filter (\<lambda>n. grid_of (init_state (drivers cfg)) n = g) (order (init_sim cfg)) =
        filter (\<lambda>n. grid_of (init_state (drivers cfg)) n = g) (roster cfg))"
proof -
  have A: "simulate M cfg =
        Inr \<lparr>classification = classify (init_sim cfg), res_timeline = [],
             pit_loss_used = pit_loss_of M cfg\<rparr>" if "total_laps cfg < 1"
  proof -
    from that have "nat (total_laps cfg) = 0" by simp
    then show ?thesis by (simp add: simulate_def init_sim_def)
  qed
  have B: "simulate M (drop_unreachable_pits cfg) = simulate M cfg"
  proof -
    have e: "total_laps (drop_unreachable_pits cfg) = total_laps cfg"
      "pit_loss_of M (drop_unreachable_pits cfg) = pit_loss_of M cfg"
      by (simp_all add: pit_loss_of_def drop_unreachable_pits_def split: option.splits)
    show ?thesis
      unfolding simulate_def e sim_upto_drop[OF order_refl] ..
  qed
  have C: "sorted (map (grid_of (init_state (drivers cfg))) (order (init_sim cfg)))"
    "filter (\<lambda>n. grid_of (init_state (drivers cfg)) n = g) (order (init_sim cfg)) =
     filter (\<lambda>n. grid_of (init_state (drivers cfg)) n = g) (roster cfg)" for g
    by (simp_all add: init_sim_def roster_def sort_key_stable)
  from A B C classify_init_sim[where cfg = cfg] init_sim_dom(3)[of cfg] show ?thesis by blast
qed

theorem invalid_configuration_not_detected_witness:
  "total_laps unchecked_cfg0 < 1 \<and>
   simulate (demo_model 5) unchecked_cfg0 =
     Inr \<lparr>classification = classify (init_sim unchecked_cfg0), res_timeline = [],
          pit_loss_used = 22\<rparr> \<and>
   map driver (classify (init_sim unchecked_cfg0)) = [''A'', ''B''] \<and>
   map cl_status (classify (init_sim unchecked_cfg0)) = [Finished, Finished] \<and>
   total_laps unchecked_cfg = 3 \<and>
   strategy_get unchecked_cfg ''A'' = [\<lparr>pe_lap = 7, pe_compound = ''Y''\<rparr>] \<and>
   strategy_get (drop_unreachable_pits unchecked_cfg) ''A'' = [] \<and>
   simulate (demo_model 5) (drop_unreachable_pits unchecked_cfg) =
     simulate (demo_model 5) unchecked_cfg \<and>
   \<not> isl (simulate (demo_model 5) unchecked_cfg) \<and>
   map (grid_of (init_state (drivers unchecked_cfg))) (roster unchecked_cfg) = [1, 1] \<and>
   order (init_sim unchecked_cfg) = [''A'', ''B'']"
proof -
  have c: "total_laps unchecked_cfg0 < 1" "total_laps unchecked_cfg = 3"
    "strategy_get unchecked_cfg ''A'' = [\<lparr>pe_lap = 7, pe_compound = ''Y''\<rparr>]"
    "strategy_get (drop_unreachable_pits unchecked_cfg) ''A'' = []"
    "pit_loss_of (demo_model 5) unchecked_cfg0 = 22"
    by (simp_all add: unchecked_cfg0_def unchecked_cfg_def strategy_get_def reachable_def
          drop_unreachable_pits_def pit_loss_of_def demo_model_def)
  have o: "order (init_sim unchecked_cfg0) = [''A'', ''B'']"
    "roster unchecked_cfg = [''A'', ''B'']"
    "map (grid_of (init_state (drivers unchecked_cfg))) (roster unchecked_cfg) = [1, 1]"
    by (simp_all add: init_sim_def init_state_def grid_of_def init_driver_def roster_def
          unchecked_cfg0_def unchecked_cfg_def)
  note T0 = invalid_configuration_not_detected[of unchecked_cfg0 "demo_model 5"]
  note T = invalid_configuration_not_detected[of unchecked_cfg "demo_model 5"]
  from T0 c(1,5) o(1)
  have a: "simulate (demo_model 5) unchecked_cfg0 =
     Inr \<lparr>classification = classify (init_sim unchecked_cfg0), res_timeline = [],
          pit_loss_used = 22\<rparr>"
    "map driver (classify (init_sim unchecked_cfg0)) = [''A'', ''B'']"
    "\<forall>e \<in> set (classify (init_sim unchecked_cfg0)). cl_status e = Finished"
    by simp_all
  from a(2) have "length (classify (init_sim unchecked_cfg0)) = 2"
    by (metis length_map length_Cons list.size(3) numeral_2_eq_2)
  then obtain e1 e2 where e: "classify (init_sim unchecked_cfg0) = [e1, e2]"
    by (auto simp: length_Suc_conv numeral_2_eq_2)
  with a(3) have st: "map cl_status (classify (init_sim unchecked_cfg0)) = [Finished, Finished]"
    by simp
  from T have b: "simulate (demo_model 5) (drop_unreachable_pits unchecked_cfg) =
     simulate (demo_model 5) unchecked_cfg"
    "mset (order (init_sim unchecked_cfg)) = mset (roster unchecked_cfg)"
    "filter (\<lambda>n. grid_of (init_state (drivers unchecked_cfg)) n = 1) (order (init_sim unchecked_cfg)) =
     filter (\<lambda>n. grid_of (init_state (drivers unchecked_cfg)) n = 1) (roster unchecked_cfg)"
    by blast+
  have g: "grid_of (init_state (drivers unchecked_cfg)) n = 1" if "n \<in> set (roster unchecked_cfg)" for n
    using that o(3) unfolding o(2) by auto
  from b(2) have "set (order (init_sim unchecked_cfg)) = set (roster unchecked_cfg)"
    by (metis set_mset_mset)
  with g b(3) have "order (init_sim unchecked_cfg) = roster unchecked_cfg"
    by (simp add: filter_id_conv)
  moreover have "\<not> isl (simulate (demo_model 5) unchecked_cfg)"
    by (simp add: sim_eval demo_model_def unchecked_cfg_def)
  ultimately show ?thesis using c a st b(1) o by simp
qed

text \<open>
  C3 as stated fails: with \<open>total_laps = 0\<close>, two drivers on grid position 1 and a pit event
  on lap 7 the simulation returns a result, and with \<open>total_laps = 3\<close> it runs all three laps.
\<close>

theorem no_configuration_error_counterexample:
  "simulate (demo_model 5) unchecked_cfg0 =
     Inr \<lparr>classification =
            [\<lparr>pos = Some 1, driver = ''A'', cl_team = ''T1'', cl_total_time = 0, cl_status = Finished\<rparr>,
             \<lparr>pos = Some 2, driver = ''B'', cl_team = ''T2'', cl_total_time = 0, cl_status = Finished\<rparr>],
          res_timeline = [], pit_loss_used = 22\<rparr> \<and>
   \<not> isl (simulate (demo_model 5) unchecked_cfg) \<and>
   map tl_lap (res_timeline (projr (simulate (demo_model 5) unchecked_cfg))) = [1, 2, 3] \<and>
   map cl_total_time (classification (projr (simulate (demo_model 5) unchecked_cfg))) = [270, 270]"
  by (simp add: sim_eval demo_model_def unchecked_cfg0_def unchecked_cfg_def)

section \<open>Retirement entries for unknown drivers\<close>

lemma base_step_dnfs [simp]: "base_step (cfg\<lparr>dnfs := d\<rparr>) = base_step cfg"
  by (simp add: fun_eq_iff base_step_def)

lemma mk_step_dnfs [simp]: "mk_step (cfg\<lparr>dnfs := d\<rparr>) = mk_step cfg"
  by (simp add: fun_eq_iff mk_step_def cong: option.case_cong)

lemma pit_loss_of_dnfs [simp]: "pit_loss_of M (cfg\<lparr>dnfs := d\<rparr>) = pit_loss_of M cfg"
  by (simp add: pit_loss_of_def cong: option.case_cong)

lemma will_pit_dnfs [simp]: "will_pit (cfg\<lparr>dnfs := d\<rparr>) = will_pit cfg"
  by (simp add: fun_eq_iff will_pit_def strategy_get_def)

lemma strategy_get_dnfs [simp]: "strategy_get (cfg\<lparr>dnfs := d\<rparr>) = strategy_get cfg"
  by (simp add: fun_eq_iff strategy_get_def)

lemma predict_laps_dnfs [simp]:
  "predict_laps M (cfg\<lparr>dnfs := d\<rparr>) pl l sc st hs ns lts = predict_laps M cfg pl l sc st hs ns lts"
  by (rule predict_laps_cong) simp_all

lemma update_tyres_dnfs [simp]:
  "update_tyres (cfg\<lparr>dnfs := d\<rparr>) l ns st = update_tyres cfg l ns st"
  by (induction ns arbitrary: st) (simp_all split: option.splits list.splits)

lemma push_history_dnfs [simp]:
  "push_history M (cfg\<lparr>dnfs := d\<rparr>) l sc st ns hs = push_history M cfg l sc st ns hs"
  by (induction ns arbitrary: hs) (simp_all split: option.splits)

lemma apply_dnfs_unknown:
  assumes "st n = None"
  shows "apply_dnfs (cfg\<lparr>dnfs := xs @ (n, k) # ys\<rparr>) l st = apply_dnfs (cfg\<lparr>dnfs := xs @ ys\<rparr>) l st"
proof
  fix m
  show "apply_dnfs (cfg\<lparr>dnfs := xs @ (n, k) # ys\<rparr>) l st m = apply_dnfs (cfg\<lparr>dnfs := xs @ ys\<rparr>) l st m"
    using assms by (cases "m = n") (auto simp: apply_dnfs_apply split: option.splits)
qed

lemma lap_step_unknown_dnf:
  assumes "state s n = None"
  shows "lap_step M (cfg\<lparr>dnfs := xs @ (n, k) # ys\<rparr>) pl l s = lap_step M (cfg\<lparr>dnfs := xs @ ys\<rparr>) pl l s"
  unfolding lap_step_def apply_dnfs_unknown[of "state s" n, OF assms]
  by (simp cong: sum.case_cong)

lemma sim_upto_unknown_dnf:
  assumes "n \<notin> set (roster cfg)"
  shows "sim_upto M (cfg\<lparr>dnfs := xs @ (n, k) # ys\<rparr>) j = sim_upto M (cfg\<lparr>dnfs := xs @ ys\<rparr>) j"
proof (induction j)
  case 0
  show ?case by (simp add: init_sim_def)
next
  case (Suc j)
  show ?case
  proof (cases "sim_upto M (cfg\<lparr>dnfs := xs @ ys\<rparr>) j")
    case (Inl e)
    with Suc show ?thesis by simp
  next
    case (Inr s)
    from sim_upto_dom[OF Inr] assms have "state s n = None"
      by (auto simp: roster_def)
    from lap_step_unknown_dnf[of s n, OF this] Suc Inr show ?thesis
      by simp
  qed
qed

text \<open>
  C10. A retirement entry whose driver is not in the roster changes nothing: the simulation
  (its result, or its error) is the one of the configuration without that entry.
\<close>

theorem unknown_dnf_entry_ignored:
  assumes "n \<notin> set (roster cfg)"
  shows "simulate M (cfg\<lparr>dnfs := xs @ (n, k) # ys\<rparr>) = simulate M (cfg\<lparr>dnfs := xs @ ys\<rparr>)"
  unfolding simulate_def sim_upto_unknown_dnf[OF assms]
  by (simp cong: sum.case_cong)

theorem unknown_dnf_entry_ignored_witness:
  "''Z'' \<notin> set (roster demo_cfg) \<and>
   simulate (demo_model 5) (demo_cfg\<lparr>dnfs := [(''Z'', 1), (''B'', 2)]\<rparr>) =
   simulate (demo_model 5) (demo_cfg\<lparr>dnfs := [(''B'', 2)]\<rparr>) \<and>
   \<not> isl (simulate (demo_model 5) (demo_cfg\<lparr>dnfs := [(''Z'', 1), (''B'', 2)]\<rparr>))"
proof -
  have h: "''Z'' \<notin> set (roster demo_cfg)" by (simp add: roster_def demo_cfg_def)
  have r: "\<not> isl (simulate (demo_model 5) (demo_cfg\<lparr>dnfs := [(''B'', 2)]\<rparr>))"
    by (simp add: sim_eval demo_model_def demo_cfg_def)
  from unknown_dnf_entry_ignored[OF h, of "demo_model 5" "[]" 1 "[(''B'', 2)]"] h r
  show ?thesis by simp
qed

section \<open>Cumulative time across laps\<close>

lemma sim_upto_lap:
  assumes "sim_upto M cfg (Suc j) = Inr s1"
  obtains s0 e where "sim_upto M cfg j = Inr s0" "timeline s1 = timeline s0 @ [e]"
    "tl_lap e = int (Suc j)"
    "time_of (state s1) n = time_of (state s0) n + charged e n"
    "lap_times e n \<noteq> None \<Longrightarrow> is_running (state s1) n"
proof -
  from sim_upto_Suc[OF assms] obtain s0 where s0: "sim_upto M cfg j = Inr s0"
    and st: "lap_step M cfg (pit_loss_of M cfg) (int (Suc j)) s0 = Inr s1" by blast
  from lap_step_timeline[OF st] obtain e where e: "timeline s1 = timeline s0 @ [e]"
    "tl_lap e = int (Suc j)" by blast
  then have l: "last (timeline s1) = e" by simp
  have r: "is_running (state s1) n" if "lap_times e n \<noteq> None"
    using lap_step_lap_times_None[OF st, of n] that l by auto
  have "charged e n = 0" if "n \<notin> dom (state s0)"
  proof -
    from that sim_upto_order_dom[OF s0] have "n \<notin> set (order s0)" by blast
    from lap_step_lap_times_None[OF st, of n] this l show ?thesis by (simp add: charged_def)
  qed
  with lap_step_time[OF st, of n] l
  have "time_of (state s1) n = time_of (state s0) n + charged e n" by auto
  with s0 e r that show thesis by blast
qed

lemma dnf_by_mono: "dnf_by cfg j n \<Longrightarrow> j \<le> k \<Longrightarrow> dnf_by cfg k n"
  unfolding dnf_by_iff by force

lemma sim_upto_running_mono:
  assumes "sim_upto M cfg j = Inr s0" "sim_upto M cfg k = Inr s" "j \<le> k" "is_running (state s) n"
  shows "is_running (state s0) n"
  using assms dnf_by_mono[of cfg j n k]
  by (auto simp: sim_upto_running[OF assms(1)] sim_upto_running[OF assms(2)])

lemma sim_upto_time_sum:
  "sim_upto M cfg k = Inr s \<Longrightarrow> time_of (state s) n = (\<Sum>e\<leftarrow>timeline s. charged e n)"
proof (induction k arbitrary: s)
  case 0
  have "time_of (state (init_sim cfg)) n = 0"
    using init_sim_running[of cfg n] by (auto simp: time_of_def split: option.splits)
  with 0 show ?case by (auto simp: init_sim_def)
next
  case (Suc k)
  from Suc.prems obtain s0 e where "sim_upto M cfg k = Inr s0" "timeline s = timeline s0 @ [e]"
    "time_of (state s) n = time_of (state s0) n + charged e n"
    by (rule sim_upto_lap)
  with Suc.IH[of s0] show ?case by simp
qed

lemma sim_upto_time_between:
  assumes "sim_upto M cfg k = Inr s"
  shows "sim_upto M cfg (k + d) = Inr s' \<Longrightarrow>
    \<exists>es. timeline s' = timeline s @ es \<and> map tl_lap es = map int [Suc k..<Suc (k + d)] \<and>
         time_of (state s') n = time_of (state s) n + (\<Sum>e\<leftarrow>es. charged e n) \<and>
         (\<forall>e \<in> set es. lap_times e n \<noteq> None \<longrightarrow> is_running (state s) n)"
proof (induction d arbitrary: s')
  case 0
  with assms show ?case by simp
next
  case (Suc d)
  from Suc.prems have s': "sim_upto M cfg (Suc (k + d)) = Inr s'" by simp
  from s' obtain s0 e where s0: "sim_upto M cfg (k + d) = Inr s0"
    and e: "timeline s' = timeline s0 @ [e]" "tl_lap e = int (Suc (k + d))"
    "time_of (state s') n = time_of (state s0) n + charged e n"
    "lap_times e n \<noteq> None \<Longrightarrow> is_running (state s') n"
    by (rule sim_upto_lap) blast
  from Suc.IH[OF s0] obtain es where es: "timeline s0 = timeline s @ es"
    "map tl_lap es = map int [Suc k..<Suc (k + d)]"
    "time_of (state s0) n = time_of (state s) n + (\<Sum>e\<leftarrow>es. charged e n)"
    "\<forall>e \<in> set es. lap_times e n \<noteq> None \<longrightarrow> is_running (state s) n" by blast
  have "is_running (state s) n" if "lap_times e n \<noteq> None"
    using sim_upto_running_mono[OF assms s', of n] e(4) that by simp
  with es e show ?case
    by (intro exI[of _ "es @ [e]"]) auto
qed

lemma predict_sequence_net: "predict_sequence M hist = Inr ys \<Longrightarrow> \<exists>X. ys = net M X"
  by (auto simp: predict_sequence_def split: sum.splits)

lemma sim_upto_lap_time_nonneg:
  assumes "\<forall>X. \<forall>y \<in> set (net M X). 0 \<le> y" "0 \<le> pit_loss_of M cfg"
  shows "sim_upto M cfg k = Inr s \<Longrightarrow> e \<in> set (timeline s) \<Longrightarrow> lap_times e n = Some t \<Longrightarrow> 0 \<le> t"
proof (induction k arbitrary: s)
  case 0
  then show ?case by (auto simp: init_sim_def)
next
  case (Suc k)
  from sim_upto_Suc[OF Suc.prems(1)] obtain s0 where s0: "sim_upto M cfg k = Inr s0"
    and st: "lap_step M cfg (pit_loss_of M cfg) (int (Suc k)) s0 = Inr s" by blast
  from lap_step_timeline[OF st] obtain e' where e': "timeline s = timeline s0 @ [e']" by blast
  show ?case
  proof (cases "e \<in> set (timeline s0)")
    case True
    from Suc.IH[OF s0 this Suc.prems(3)] show ?thesis .
  next
    case False
    with Suc.prems(2) e' have l: "last (timeline s) = e" by simp
    from lap_step_lap_times_None[OF st, of n] Suc.prems(3) l
    have mem: "n \<in> set (order s0)" and r: "is_running (state s) n" by auto
    from mem sim_upto_order_dom[OF s0] obtain d where d: "state s0 n = Some d" by blast
    from lap_step_lap_times_Some[OF st mem d r] obtain h ys where
      ys: "predict_sequence M (h @ [mk_step cfg (int (Suc k)) (is_sc (int (Suc k)) (safety_cars cfg)) n d]) = Inr ys"
        "length h < length ys"
      and lt: "lap_times e n =
                 Some (ys ! length h + (if will_pit cfg n (int (Suc k)) then pit_loss_of M cfg else 0))"
      unfolding l by blast
    from predict_sequence_net[OF ys(1)] obtain X where "ys = net M X" by blast
    with assms(1) ys(2) have "0 \<le> ys ! length h" by (metis nth_mem)
    with lt Suc.prems(3) assms(2) show ?thesis by (auto split: if_splits)
  qed
qed

text \<open>
  C5, as the code has it. The engine adds whatever lap time it computed, with no check of
  its sign. Between any two lap boundaries \<open>k \<le> k'\<close> of a simulation the cumulative time of
  a driver does not decrease provided that the network never returns a negative value and
  the pit loss in use is not negative. For every network and pit loss, the cumulative time
  can only change if the driver was running at boundary \<open>k\<close> (for consecutive boundaries:
  only if the driver is still running on that lap), and for a driver that is not running
  at boundary \<open>k\<close> it never changes again.
\<close>

theorem cumulative_time_monotone:
  assumes "sim_upto M cfg k = Inr s" "sim_upto M cfg k' = Inr s'" "k \<le> k'"
  shows "((\<forall>X. \<forall>y \<in> set (net M X). 0 \<le> y) \<and> 0 \<le> pit_loss_of M cfg \<longrightarrow>
            time_of (state s) n \<le> time_of (state s') n) \<and>
         (time_of (state s) n \<noteq> time_of (state s') n \<longrightarrow> is_running (state s) n) \<and>
         (k' = Suc k \<and> time_of (state s) n \<noteq> time_of (state s') n \<longrightarrow> is_running (state s') n) \<and>
         (\<not> is_running (state s) n \<longrightarrow>
            \<not> is_running (state s') n \<and> time_of (state s') n = time_of (state s) n)"
proof -
  from assms(3) obtain d where d: "k' = k + d" using le_Suc_ex by blast
  from sim_upto_time_between[OF assms(1) assms(2)[unfolded d], of n]
  obtain es where es: "timeline s' = timeline s @ es"
    "time_of (state s') n = time_of (state s) n + (\<Sum>e\<leftarrow>es. charged e n)"
    "\<forall>e \<in> set es. lap_times e n \<noteq> None \<longrightarrow> is_running (state s) n" by blast
  have zero: "(\<Sum>e\<leftarrow>es. charged e n) = 0" if "\<not> is_running (state s) n"
  proof -
    from that es(3) have "\<forall>e \<in> set es. charged e n = 0" by (auto simp: charged_def)
    then show ?thesis by (induction es) auto
  qed
  have nonneg: "0 \<le> (\<Sum>e\<leftarrow>es. charged e n)"
    if "\<forall>X. \<forall>y \<in> set (net M X). 0 \<le> y" "0 \<le> pit_loss_of M cfg"
  proof (rule sum_list_nonneg)
    fix x assume "x \<in> set (map (\<lambda>e. charged e n) es)"
    then obtain e where e: "e \<in> set es" "x = charged e n" by auto
    show "0 \<le> x"
    proof (cases "lap_times e n")
      case None
      with e show ?thesis by (simp add: charged_def)
    next
      case (Some t)
      from e(1) es(1) have "e \<in> set (timeline s')" by simp
      from sim_upto_lap_time_nonneg[OF that assms(2) this Some] Some e(2)
      show ?thesis by (simp add: charged_def)
    qed
  qed
  have one: "is_running (state s') n" if "k' = Suc k" "time_of (state s) n \<noteq> time_of (state s') n"
  proof -
    from assms(2) that(1) have "sim_upto M cfg (Suc k) = Inr s'" by simp
    then obtain s0 e where "sim_upto M cfg k = Inr s0"
      "time_of (state s') n = time_of (state s0) n + charged e n"
      "lap_times e n \<noteq> None \<Longrightarrow> is_running (state s') n"
      by (rule sim_upto_lap) blast
    with assms(1) that(2) show ?thesis by (auto simp: charged_def split: option.splits)
  qed
  have "\<not> is_running (state s') n" if "\<not> is_running (state s) n"
    using sim_upto_running_mono[OF assms] that by blast
  with es(2) zero nonneg one show ?thesis by auto
qed

theorem cumulative_time_monotone_witness:
  "net (demo_model 5) = (\<lambda>X. replicate (length (driver_seq X)) 90) \<and>
   pit_loss_of (demo_model 5) demo_cfg = 22 \<and>
   (\<exists>s s'. sim_upto (demo_model 5) demo_cfg 1 = Inr s \<and> sim_upto (demo_model 5) demo_cfg 3 = Inr s' \<and>
     time_of (state s) ''A'' = 90 \<and> time_of (state s') ''A'' = 292 \<and>
     time_of (state s) ''A'' \<le> time_of (state s') ''A'' \<and> is_running (state s) ''A'' \<and>
     \<not> is_running (state s') ''B'' \<and> time_of (state s') ''B'' = 90)"
proof -
  have n: "\<forall>X. \<forall>y \<in> set (net (demo_model 5) X). 0 \<le> y" "0 \<le> pit_loss_of (demo_model 5) demo_cfg"
    by (simp_all add: demo_model_def pit_loss_of_def demo_cfg_def)
  have "\<exists>s s'. sim_upto (demo_model 5) demo_cfg 1 = Inr s \<and> sim_upto (demo_model 5) demo_cfg 3 = Inr s' \<and>
     time_of (state s) ''A'' = 90 \<and> time_of (state s') ''A'' = 292 \<and> time_of (state s') ''B'' = 90 \<and>
     \<not> is_running (state s') ''B''"
    by (simp add: sim_eval demo_model_def demo_cfg_def)
  then obtain s s' where h: "sim_upto (demo_model 5) demo_cfg 1 = Inr s"
    "sim_upto (demo_model 5) demo_cfg 3 = Inr s'"
    "time_of (state s) ''A'' = 90" "time_of (state s') ''A'' = 292" "time_of (state s') ''B'' = 90"
    "\<not> is_running (state s') ''B''"
    by (elim exE conjE)
  from cumulative_time_monotone[OF h(1,2), of "''A''"] h n
  have "time_of (state s) ''A'' \<le> time_of (state s') ''A'' \<and> is_running (state s) ''A''"
    by simp
  with h have "\<exists>s s'. sim_upto (demo_model 5) demo_cfg 1 = Inr s \<and>
     sim_upto (demo_model 5) demo_cfg 3 = Inr s' \<and>
     time_of (state s) ''A'' = 90 \<and> time_of (state s') ''A'' = 292 \<and>
     time_of (state s) ''A'' \<le> time_of (state s') ''A'' \<and> is_running (state s) ''A'' \<and>
     \<not> is_running (state s') ''B'' \<and> time_of (state s') ''B'' = 90"
    by (intro exI[of _ s] exI[of _ s']) simp
  moreover have "net (demo_model 5) = (\<lambda>X. replicate (length (driver_seq X)) 90)"
    "pit_loss_of (demo_model 5) demo_cfg = 22"
    by (simp_all add: demo_model_def pit_loss_of_def demo_cfg_def)
  ultimately show ?thesis by (intro conjI)
qed

text \<open>
  C5 as stated fails. A network that returns one output per position, all of them \<open>-90\<close>,
  is a conforming predictor, and with it the cumulative time of the running driver A goes
  from 0 to \<open>-90\<close> on lap 1. With the network that predicts 90 seconds and a default pit
  loss of \<open>-1000\<close> on a circuit without estimate, the time of A goes from 90 to \<open>-820\<close> on
  the pit lap 2.
\<close>

theorem cumulative_time_decreases_counterexample:
  "conforming neg_model \<and>
   \<not> isl (sim_upto neg_model demo_cfg 1) \<and>
   time_of (state (projr (sim_upto neg_model demo_cfg 0))) ''A'' = 0 \<and>
   is_running (state (projr (sim_upto neg_model demo_cfg 1))) ''A'' \<and>
   time_of (state (projr (sim_upto neg_model demo_cfg 1))) ''A'' = - 90 \<and>
   conforming (demo_model 5) \<and>
   \<not> isl (sim_upto (demo_model 5) neg_loss_cfg 2) \<and>
   time_of (state (projr (sim_upto (demo_model 5) neg_loss_cfg 1))) ''A'' = 90 \<and>
   is_running (state (projr (sim_upto (demo_model 5) neg_loss_cfg 2))) ''A'' \<and>
   time_of (state (projr (sim_upto (demo_model 5) neg_loss_cfg 2))) ''A'' = - 820"
proof -
  have "conforming neg_model" by (simp add: conforming_def neg_model_def)
  moreover have "\<not> isl (sim_upto neg_model demo_cfg 1) \<and>
   time_of (state (projr (sim_upto neg_model demo_cfg 0))) ''A'' = 0 \<and>
   is_running (state (projr (sim_upto neg_model demo_cfg 1))) ''A'' \<and>
   time_of (state (projr (sim_upto neg_model demo_cfg 1))) ''A'' = - 90"
    by (simp add: sim_eval neg_model_def demo_model_def demo_cfg_def)
  moreover have "\<not> isl (sim_upto (demo_model 5) neg_loss_cfg 2) \<and>
   time_of (state (projr (sim_upto (demo_model 5) neg_loss_cfg 1))) ''A'' = 90 \<and>
   is_running (state (projr (sim_upto (demo_model 5) neg_loss_cfg 2))) ''A'' \<and>
   time_of (state (projr (sim_upto (demo_model 5) neg_loss_cfg 2))) ''A'' = - 820"
    by (simp add: sim_eval demo_model_def neg_loss_cfg_def demo_cfg_def)
  ultimately show ?thesis using conforming_demo[of 5] by (intro conjI) simp_all
qed

section \<open>Retirements\<close>

lemma classify_running_entry:
  "e \<in> set (classify_running st p xs) \<Longrightarrow>
   is_running st (driver e) \<and> cl_status e = Finished \<and> pos e \<noteq> None \<and>
   cl_total_time e = time_of st (driver e)"
proof (induction xs arbitrary: p)
  case Nil
  then show ?case by simp
next
  case (Cons a xs)
  from Cons.prems consider
    (new) s where "st a = Some s" "running s"
      "e = \<lparr>pos = Some p, driver = a, cl_team = st_team s, cl_total_time = total_time s,
            cl_status = Finished\<rparr>"
    | (old) p' where "e \<in> set (classify_running st p' xs)"
    by (auto split: option.splits if_splits)
  then show ?case
  proof cases
    case new
    then show ?thesis by (simp add: is_running_def time_of_def)
  next
    case old
    then show ?thesis by (rule Cons.IH)
  qed
qed

lemma classify_dnf_entry:
  "e \<in> set (classify_dnf st xs) \<Longrightarrow>
   \<not> is_running st (driver e) \<and> cl_status e = DNF \<and> pos e = None \<and>
   cl_total_time e = time_of st (driver e)"
proof (induction xs)
  case Nil
  then show ?case by simp
next
  case (Cons a xs)
  from Cons.prems consider
    (new) s where "st a = Some s" "\<not> running s"
      "e = \<lparr>pos = None, driver = a, cl_team = st_team s, cl_total_time = total_time s,
            cl_status = DNF\<rparr>"
    | (old) "e \<in> set (classify_dnf st xs)"
    by (auto split: option.splits if_splits)
  then show ?case
  proof cases
    case new
    then show ?thesis by (simp add: is_running_def time_of_def)
  next
    case old
    then show ?thesis by (rule Cons.IH)
  qed
qed

lemma classify_entry:
  "e \<in> set (classify s) \<Longrightarrow>
   cl_total_time e = time_of (state s) (driver e) \<and>
   (if is_running (state s) (driver e) then cl_status e = Finished \<and> pos e \<noteq> None
    else cl_status e = DNF \<and> pos e = None)"
  using classify_running_entry[of e "state s" 1 "order s"] classify_dnf_entry[of e "state s" "order s"]
  by (auto simp: classify_def)

lemma sim_upto_lap_times:
  "sim_upto M cfg k = Inr s \<Longrightarrow> e \<in> set (timeline s) \<Longrightarrow> lap_times e n \<noteq> None \<Longrightarrow>
   \<exists>j. tl_lap e = int j \<and> 1 \<le> j \<and> j \<le> k \<and> n \<in> set (roster cfg) \<and> \<not> dnf_by cfg j n"
proof (induction k arbitrary: s)
  case 0
  then show ?case by (auto simp: init_sim_def)
next
  case (Suc k)
  from Suc.prems(1) obtain s0 e' where s0: "sim_upto M cfg k = Inr s0"
    and e': "timeline s = timeline s0 @ [e']" "tl_lap e' = int (Suc k)"
    "lap_times e' n \<noteq> None \<Longrightarrow> is_running (state s) n"
    by (rule sim_upto_lap) blast
  show ?case
  proof (cases "e \<in> set (timeline s0)")
    case True
    from Suc.IH[OF s0 True Suc.prems(3)] show ?thesis by (auto intro: le_SucI)
  next
    case False
    with Suc.prems(2) e'(1) have "e = e'" by simp
    with e' Suc.prems(3) have "is_running (state s) n" by simp
    with sim_upto_running[OF Suc.prems(1), of n] e'(2) \<open>e = e'\<close> show ?thesis
      by (intro exI[of _ "Suc k"]) simp
  qed
qed

lemma sum_list_filter_zero:
  fixes f :: "'a \<Rightarrow> real"
  shows "(\<And>x. x \<in> set xs \<Longrightarrow> \<not> P x \<Longrightarrow> f x = 0) \<Longrightarrow>
         (\<Sum>x\<leftarrow>filter P xs. f x) = (\<Sum>x\<leftarrow>xs. f x)"
  by (induction xs) auto

text \<open>
  C4. A driver of the roster with a retirement entry on a lap \<open>l\<close> of the race has no lap
  time in the timeline entry of lap \<open>l\<close> or of any later lap; the driver is in the final
  classification, and every classification entry of the driver is a DNF without position
  whose time is the cumulative time after lap \<open>l - 1\<close>, which is the sum of the lap times
  charged on the laps before \<open>l\<close>.
\<close>

theorem retirement_before_lap_time:
  assumes "simulate M cfg = Inr res" "(n, l) \<in> set (dnfs cfg)" "1 \<le> l" "l \<le> total_laps cfg"
    "n \<in> set (roster cfg)"
  shows "(\<forall>e \<in> set (res_timeline res). l \<le> tl_lap e \<longrightarrow> lap_times e n = None) \<and>
         (\<exists>e \<in> set (classification res). driver e = n) \<and>
         (\<exists>s. sim_upto M cfg (nat (l - 1)) = Inr s \<and>
            (\<forall>e \<in> set (classification res). driver e = n \<longrightarrow>
               cl_status e = DNF \<and> pos e = None \<and> cl_total_time e = time_of (state s) n \<and>
               cl_total_time e = (\<Sum>e'\<leftarrow>filter (\<lambda>e'. tl_lap e' < l) (res_timeline res). charged e' n)))"
proof -
  let ?K = "nat (total_laps cfg)"
  from assms(1) obtain sK where sK: "sim_upto M cfg ?K = Inr sK"
    and res: "res_timeline res = timeline sK" "classification res = classify sK"
    by (auto simp: simulate_def split: sum.splits)
  have none: "lap_times e n = None" if "e \<in> set (timeline sK)" "l \<le> tl_lap e" for e
  proof (rule ccontr)
    assume "lap_times e n \<noteq> None"
    from sim_upto_lap_times[OF sK that(1) this] obtain j where
      "tl_lap e = int j" "\<not> dnf_by cfg j n" by blast
    with that(2) assms(2,3) show False by (auto simp: dnf_by_iff)
  qed
  from assms(3,4) have le: "nat (l - 1) \<le> ?K" by simp
  from sim_upto_prefix[OF sK le] obtain s where s: "sim_upto M cfg (nat (l - 1)) = Inr s" by blast
  from assms(2,3,4) have "dnf_by cfg ?K n" by (auto simp: dnf_by_iff)
  with sim_upto_running[OF sK, of n] have nr: "\<not> is_running (state sK) n" by simp
  from le obtain d where d: "?K = nat (l - 1) + d" using le_Suc_ex by blast
  from sim_upto_time_between[OF s sK[unfolded d], of n]
  obtain es where es: "timeline sK = timeline s @ es"
    "map tl_lap es = map int [Suc (nat (l - 1))..<Suc (nat (l - 1) + d)]"
    "time_of (state sK) n = time_of (state s) n + (\<Sum>e\<leftarrow>es. charged e n)" by blast
  have "charged e n = 0" if "e \<in> set es" for e
  proof -
    from that have "tl_lap e \<in> set (map tl_lap es)" by simp
    with es(2) assms(3) have "l \<le> tl_lap e" by auto
    with none[of e] that es(1) show ?thesis by (simp add: charged_def)
  qed
  then have "(\<Sum>e\<leftarrow>es. charged e n) = 0" by (induction es) auto
  with es(3) have t1: "time_of (state sK) n = time_of (state s) n" by simp
  have "charged e n = 0" if "e \<in> set (timeline sK)" "\<not> tl_lap e < l" for e
    using none[of e] that by (simp add: charged_def)
  from sum_list_filter_zero[of "timeline sK" "\<lambda>e. tl_lap e < l" "\<lambda>e. charged e n", OF this]
    sim_upto_time_sum[OF sK, of n]
  have t2: "time_of (state sK) n = (\<Sum>e\<leftarrow>filter (\<lambda>e. tl_lap e < l) (timeline sK). charged e n)"
    by simp
  from classify_mset[OF sim_upto_order_dom[OF sK]] sim_upto_dom[OF sK] assms(5)
  have "n \<in> set (map driver (classify sK))" by (metis set_mset_mset)
  then have ex: "\<exists>e \<in> set (classify sK). driver e = n" by auto
  have all: "cl_status e = DNF \<and> pos e = None \<and> cl_total_time e = time_of (state s) n \<and>
             cl_total_time e = (\<Sum>e'\<leftarrow>filter (\<lambda>e'. tl_lap e' < l) (timeline sK). charged e' n)"
    if "e \<in> set (classify sK)" "driver e = n" for e
    using classify_entry[OF that(1)] that(2) nr t1 t2 by simp
  have A: "\<forall>e \<in> set (timeline sK). l \<le> tl_lap e \<longrightarrow> lap_times e n = None"
    using none by blast
  have C: "\<exists>s. sim_upto M cfg (nat (l - 1)) = Inr s \<and>
            (\<forall>e \<in> set (classify sK). driver e = n \<longrightarrow>
               cl_status e = DNF \<and> pos e = None \<and> cl_total_time e = time_of (state s) n \<and>
               cl_total_time e = (\<Sum>e'\<leftarrow>filter (\<lambda>e'. tl_lap e' < l) (timeline sK). charged e' n))"
    using s all by blast
  from A ex C show ?thesis unfolding res by (intro conjI)
qed

theorem retirement_before_lap_time_witness:
  "\<exists>res. simulate (demo_model 5) demo_cfg = Inr res \<and> (''B'', 2) \<in> set (dnfs demo_cfg) \<and>
     2 \<le> total_laps demo_cfg \<and> ''B'' \<in> set (roster demo_cfg) \<and>
     (\<forall>e \<in> set (res_timeline res). 2 \<le> tl_lap e \<longrightarrow> lap_times e ''B'' = None) \<and>
     (\<exists>e \<in> set (classification res). driver e = ''B'') \<and>
     (\<forall>e \<in> set (classification res). driver e = ''B'' \<longrightarrow>
        cl_status e = DNF \<and> pos e = None \<and> cl_total_time e = 90)"
proof -
  from demo_run obtain res where r: "simulate (demo_model 5) demo_cfg = Inr res" by blast
  have h: "(''B'', 2) \<in> set (dnfs demo_cfg)" "(1::int) \<le> 2" "2 \<le> total_laps demo_cfg"
    "''B'' \<in> set (roster demo_cfg)"
    by (simp_all add: demo_cfg_def roster_def)
  have t: "\<exists>s. sim_upto (demo_model 5) demo_cfg (nat (2 - 1)) = Inr s \<and> time_of (state s) ''B'' = 90"
    by (simp add: sim_eval demo_model_def demo_cfg_def)
  from retirement_before_lap_time[OF r h] t r h show ?thesis
    by (intro exI[of _ res]) auto
qed

section \<open>Pit stops and tyre age\<close>

lemma mk_step_compound_tyre_age:
  assumes "\<forall>w. weather_by_lap cfg l = Some w \<longrightarrow> w ''compound'' = None \<and> w ''tyre_age'' = None"
  shows "mk_step cfg l sc n d ''compound'' = Some (PStr (st_compound d))"
    and "mk_step cfg l sc n d ''tyre_age'' = Some (PInt (tyre_age d))"
  using assms by (auto simp: mk_step_def base_step_def map_add_def split: option.splits)

text \<open>
  C2. Take a lap \<open>k + 1\<close> of a simulation with distinct driver names and a driver who has
  state \<open>d\<close> before the lap and is still running on it. The lap time recorded for the driver
  is the prediction at the last position of history plus current step, where the step is
  built from \<open>d\<close>, the state before the tyre update (so it carries the compound and tyre age
  of \<open>d\<close>, unless the weather override of the lap assigns those keys); on a pit lap the pit
  loss is added. After the lap the cumulative time has grown by the recorded lap time; on
  a pit lap the compound is the one of the first pit event stored for that lap and the
  tyre age is 0, otherwise the compound is unchanged and the tyre age is one more.
\<close>

theorem pit_loss_then_tyre_update:
  assumes "sim_upto M cfg k = Inr s" "sim_upto M cfg (Suc k) = Inr s'" "distinct (roster cfg)"
    "state s n = Some d" "is_running (state s') n"
  shows "\<exists>h e ys t d'.
           history s n = Some h \<and> timeline s' = timeline s @ [e] \<and> tl_lap e = int (Suc k) \<and>
           predict_sequence M
             (h @ [mk_step cfg (int (Suc k)) (is_sc (int (Suc k)) (safety_cars cfg)) n d]) = Inr ys \<and>
           length h < length ys \<and> t = ys ! length h \<and>
           lap_times e n = Some (if will_pit cfg n (int (Suc k)) then t + pit_loss_of M cfg else t) \<and>
           ((\<forall>w. weather_by_lap cfg (int (Suc k)) = Some w \<longrightarrow>
                 w ''compound'' = None \<and> w ''tyre_age'' = None) \<longrightarrow>
              mk_step cfg (int (Suc k)) (is_sc (int (Suc k)) (safety_cars cfg)) n d ''compound'' =
                Some (PStr (st_compound d)) \<and>
              mk_step cfg (int (Suc k)) (is_sc (int (Suc k)) (safety_cars cfg)) n d ''tyre_age'' =
                Some (PInt (tyre_age d))) \<and>
           state s' n = Some d' \<and>
           total_time d' = total_time d + charged e n \<and>
           (if will_pit cfg n (int (Suc k))
            then st_compound d' =
                   pe_compound (hd (filter (\<lambda>e. pe_lap e = int (Suc k)) (strategy_get cfg n))) \<and>
                 tyre_age d' = 0
            else st_compound d' = st_compound d \<and> tyre_age d' = tyre_age d + 1)"
proof -
  let ?l = "int (Suc k)"
  let ?sc = "is_sc ?l (safety_cars cfg)"
  let ?pl = "pit_loss_of M cfg"
  from assms(1,2) have st: "lap_step M cfg ?pl ?l s = Inr s'" by simp
  from sim_upto_dom[OF assms(1)] assms(3) have dist: "distinct (order s)"
    by (metis mset_eq_imp_distinct_iff)
  from sim_upto_dom[OF assms(1)] sim_upto_set_order[OF assms(1)] assms(4)
  have mem: "n \<in> set (order s)" by auto
  from lap_step_timeline[OF st] obtain e where e: "timeline s' = timeline s @ [e]" "tl_lap e = ?l"
    by blast
  then have l: "last (timeline s') = e" by simp
  from lap_step_lap_times_Some[OF st mem assms(4,5)] obtain h ys where h: "history s n = Some h"
    and ys: "predict_sequence M (h @ [mk_step cfg ?l ?sc n d]) = Inr ys" "length h < length ys"
    and lt: "lap_times e n = Some (ys ! length h + (if will_pit cfg n ?l then ?pl else 0))"
    unfolding l by blast
  from assms(4,5) have r: "running d" "(n, ?l) \<notin> set (dnfs cfg)"
    unfolding lap_step_running[OF st] by (auto simp: is_running_def)
  from st obtain lts where
    u: "update_tyres cfg ?l (order s) (update_totals lts (apply_dnfs cfg ?l (state s))) = Inr (state s')"
    and lts: "lap_times (last (timeline s')) = lts"
    by (elim lap_stepE) simp
  from lts l have lts': "lts n = lap_times e n" by simp
  let ?d2 = "d\<lparr>total_time := total_time d + charged e n\<rparr>"
  have "update_totals lts (apply_dnfs cfg ?l (state s)) n = Some ?d2"
    using r assms(4) lt by (simp add: update_totals_def apply_dnfs_apply lts' charged_def)
  with update_tyres_apply[OF u dist, of n] mem r
  have s': "state s' n = Some (tyre_step cfg ?l n ?d2)" by simp
  show ?thesis
    using h e ys lt s' mk_step_compound_tyre_age[of cfg ?l ?sc n d]
    by (intro exI[of _ h] exI[of _ e] exI[of _ ys] exI[of _ "ys ! length h"]
          exI[of _ "tyre_step cfg ?l n ?d2"])
       (auto simp: tyre_step_def)
qed

theorem pit_loss_then_tyre_update_witness:
  "\<exists>s1 s2 s3 e2.
     sim_upto (demo_model 5) demo_cfg 1 = Inr s1 \<and> sim_upto (demo_model 5) demo_cfg 2 = Inr s2 \<and>
     sim_upto (demo_model 5) demo_cfg 3 = Inr s3 \<and> distinct (roster demo_cfg) \<and>
     is_running (state s2) ''A'' \<and> is_running (state s3) ''A'' \<and>
     will_pit demo_cfg ''A'' 2 \<and> \<not> will_pit demo_cfg ''A'' 3 \<and> pit_loss_of (demo_model 5) demo_cfg = 22 \<and>
     timeline s2 = timeline s1 @ [e2] \<and> lap_times e2 ''A'' = Some 112 \<and>
     map_option st_compound (state s1 ''A'') = Some ''X'' \<and>
     map_option tyre_age (state s1 ''A'') = Some 1 \<and>
     map_option st_compound (state s2 ''A'') = Some ''Y'' \<and>
     map_option tyre_age (state s2 ''A'') = Some 0 \<and>
     map_option st_compound (state s3 ''A'') = Some ''Y'' \<and>
     map_option tyre_age (state s3 ''A'') = Some 1"
proof -
  let ?d1 = "\<lparr>st_team = ''T1'', st_compound = ''X'', tyre_age = 1, total_time = 90, st_grid = 1,
              running = True\<rparr>"
  have "\<exists>s1 s2 s3 d2. sim_upto (demo_model 5) demo_cfg 1 = Inr s1 \<and>
     sim_upto (demo_model 5) demo_cfg 2 = Inr s2 \<and> sim_upto (demo_model 5) demo_cfg 3 = Inr s3 \<and>
     state s1 ''A'' = Some ?d1 \<and> state s2 ''A'' = Some d2 \<and> st_compound d2 = ''Y'' \<and>
     is_running (state s2) ''A'' \<and> is_running (state s3) ''A'' \<and>
     map_option length (history s1 ''A'') = Some 1"
    by (simp add: sim_eval demo_model_def demo_cfg_def)
  then obtain s1 s2 s3 d2 where s: "sim_upto (demo_model 5) demo_cfg 1 = Inr s1"
    "sim_upto (demo_model 5) demo_cfg 2 = Inr s2" "sim_upto (demo_model 5) demo_cfg 3 = Inr s3"
    and d: "state s1 ''A'' = Some ?d1" "state s2 ''A'' = Some d2" "st_compound d2 = ''Y''"
    and r: "is_running (state s2) ''A''" "is_running (state s3) ''A''"
    and hl: "map_option length (history s1 ''A'') = Some 1"
    by blast
  have c: "distinct (roster demo_cfg)" "will_pit demo_cfg ''A'' 2" "\<not> will_pit demo_cfg ''A'' 3"
    "pit_loss_of (demo_model 5) demo_cfg = 22"
    "pe_compound (hd (filter (\<lambda>e. pe_lap e = 2) (strategy_get demo_cfg ''A''))) = ''Y''"
    "weather_by_lap demo_cfg = Map.empty"
    by (simp_all add: roster_def demo_cfg_def will_pit_def strategy_get_def pit_loss_of_def
          demo_model_def)
  have p: "ys ! length h = 90"
    if "predict_sequence (demo_model 5) (h @ [x]) = Inr ys" "length h = 1" for h x ys
    using demo_predict[OF that(1)] that(2) by simp
  have s': "sim_upto (demo_model 5) demo_cfg (Suc 0) = Inr s1"
    "sim_upto (demo_model 5) demo_cfg (Suc (Suc 0)) = Inr s2"
    "sim_upto (demo_model 5) demo_cfg (Suc (Suc (Suc 0))) = Inr s3"
    using s by (simp_all only: One_nat_def numeral_2_eq_2 numeral_3_eq_3)
  from pit_loss_then_tyre_update[OF s'(1) s'(2) c(1) d(1)] r(1) c(2,4,5,6) hl p
  obtain e2 d' where a: "timeline s2 = timeline s1 @ [e2]" "lap_times e2 ''A'' = Some 112"
    "state s2 ''A'' = Some d'" "st_compound d' = ''Y''" "tyre_age d' = 0"
    by auto
  from pit_loss_then_tyre_update[OF s'(2) s'(3) c(1) a(3)] r(2) c(3,6) a(4,5)
  obtain d'' where b: "state s3 ''A'' = Some d''" "st_compound d'' = ''Y''" "tyre_age d'' = 1"
    by auto
  from s r c a b d show ?thesis
    by (intro exI[of _ s1] exI[of _ s2] exI[of _ s3] exI[of _ e2]) simp
qed

section \<open>Rolling history\<close>

lemma py_last_n_push:
  "0 < m \<Longrightarrow> push m (py_last_n m xs) x = py_last_n m (xs @ [x])"
proof (cases "length xs \<le> m")
  case True
  then show ?thesis by (simp add: push_def py_last_n_def)
next
  case False
  then have "Suc (length xs) - (length xs - m + m) + (length xs - m) = Suc (length xs) - m"
    by arith
  with False show ?thesis by (simp add: push_def py_last_n_def)
qed

lemma sim_upto_history_bound:
  "sim_upto M cfg k = Inr s \<Longrightarrow> 0 < max_len M \<Longrightarrow> history s n = Some h \<Longrightarrow>
   length h \<le> max_len M"
proof (induction k arbitrary: s n h)
  case 0
  from 0 have "fold (\<lambda>d hs. hs(name d \<mapsto> [])) (drivers cfg) Map.empty n = Some h"
    by (auto simp: init_sim_def init_history_def)
  from init_history_empty[OF _ this] show ?case by simp
next
  case (Suc k)
  from sim_upto_Suc[OF Suc.prems(1)] obtain s0 where s0: "sim_upto M cfg k = Inr s0"
    and st: "lap_step M cfg (pit_loss_of M cfg) (int (Suc k)) s0 = Inr s" by blast
  from st obtain st3 where
    p: "push_history M cfg (int (Suc k)) (is_sc (int (Suc k)) (safety_cars cfg)) st3 (order s0)
          (history s0) = Inr (history s)"
    by (elim lap_stepE) simp
  show ?case
    by (rule push_history_bound[OF p Suc.prems(2) _ Suc.prems(3)])
       (rule Suc.IH[OF s0 Suc.prems(2)])
qed

lemma sim_upto_history_running:
  assumes "distinct (roster cfg)" "0 < max_len M"
  shows "sim_upto M cfg k = Inr s \<Longrightarrow> is_running (state s) n \<Longrightarrow>
         history s n = Some (py_last_n (max_len M) (map (snapshot M cfg n) [1..<Suc k]))"
proof (induction k arbitrary: s)
  case 0
  from 0 sim_upto_running[of M cfg 0 s n] sim_upto_dom[of M cfg 0 s]
  obtain h where h: "history s n = Some h" by auto
  with 0 have "fold (\<lambda>d hs. hs(name d \<mapsto> [])) (drivers cfg) Map.empty n = Some h"
    by (auto simp: init_sim_def init_history_def)
  from init_history_empty[OF _ this] h show ?case by (simp add: py_last_n_def)
next
  case (Suc k)
  let ?l = "int (Suc k)"
  from sim_upto_Suc[OF Suc.prems(1)] obtain s0 where s0: "sim_upto M cfg k = Inr s0"
    and st: "lap_step M cfg (pit_loss_of M cfg) ?l s0 = Inr s" by blast
  from sim_upto_running_mono[OF s0 Suc.prems(1) _ Suc.prems(2)]
  have r0: "is_running (state s0) n" by simp
  note IH = Suc.IH[OF s0 r0]
  from sim_upto_dom[OF s0] assms(1) have dist: "distinct (order s0)"
    by (metis mset_eq_imp_distinct_iff)
  from Suc.prems sim_upto_running[OF Suc.prems(1), of n] sim_upto_set_order[OF s0]
  have mem: "n \<in> set (order s0)" by simp
  from Suc.prems(2) obtain d where d: "state s n = Some d" "running d"
    by (auto simp: is_running_def split: option.splits)
  from st have
    p: "push_history M cfg ?l (is_sc ?l (safety_cars cfg)) (state s) (order s0)
          (history s0) = Inr (history s)"
    by (elim lap_stepE) simp
  have snap: "snapshot M cfg n (Suc k) = mk_step cfg ?l (is_sc ?l (safety_cars cfg)) n d"
    unfolding snapshot_def Suc.prems(1) using d by simp
  from push_history_apply[OF p dist, of n] d mem IH
  have "history s n = Some (push (max_len M) (py_last_n (max_len M) (map (snapshot M cfg n) [1..<Suc k]))
                             (snapshot M cfg n (Suc k)))"
    by (simp add: snap)
  then show ?case by (simp add: py_last_n_push[OF assms(2)])
qed

text \<open>
  C6. With \<open>max_len \<ge> 1\<close>, at every lap boundary of a simulation every driver's history has
  at most \<open>max_len\<close> entries. With distinct driver names the history of a driver still
  running after \<open>k\<close> laps is the list of the snapshots of laps \<open>1..k\<close> in lap order, cut to
  its last \<open>max_len\<close> elements: once \<open>k > max_len\<close> the oldest \<open>k - max_len\<close> snapshots are gone.
\<close>

theorem rolling_history_bounded_fifo:
  assumes "sim_upto M cfg k = Inr s" "0 < max_len M"
  shows "(\<forall>n h. history s n = Some h \<longrightarrow> length h \<le> max_len M) \<and>
         (distinct (roster cfg) \<and> is_running (state s) n \<longrightarrow>
            history s n = Some (drop (k - max_len M) (map (snapshot M cfg n) [1..<Suc k])))"
proof -
  have "py_last_n (max_len M) (map (snapshot M cfg n) [1..<Suc k]) =
        drop (k - max_len M) (map (snapshot M cfg n) [1..<Suc k])"
    using assms(2) by (simp add: py_last_n_def)
  with sim_upto_history_bound[OF assms] sim_upto_history_running[OF _ assms(2,1), of n]
  show ?thesis by auto
qed

theorem rolling_history_bounded_fifo_witness:
  "(\<exists>s. sim_upto (demo_model 2) demo_cfg 2 = Inr s \<and> 0 < max_len (demo_model 2) \<and>
       distinct (roster demo_cfg) \<and> is_running (state s) ''A'' \<and>
       (\<forall>n h. history s n = Some h \<longrightarrow> length h \<le> 2) \<and>
       history s ''A'' = Some [snapshot (demo_model 2) demo_cfg ''A'' 1,
                               snapshot (demo_model 2) demo_cfg ''A'' 2]) \<and>
   (\<exists>s. sim_upto wide_model demo_cfg 3 = Inr s \<and> 0 < max_len wide_model \<and>
       is_running (state s) ''A'' \<and>
       (\<forall>n h. history s n = Some h \<longrightarrow> length h \<le> 2) \<and>
       history s ''A'' = Some [snapshot wide_model demo_cfg ''A'' 2,
                               snapshot wide_model demo_cfg ''A'' 3])"
proof -
  have "\<exists>s. sim_upto (demo_model 2) demo_cfg 2 = Inr s \<and> is_running (state s) ''A''"
    by (simp add: sim_eval demo_model_def demo_cfg_def)
  then obtain s where s: "sim_upto (demo_model 2) demo_cfg 2 = Inr s" "is_running (state s) ''A''"
    by (elim exE conjE)
  have "\<exists>s. sim_upto wide_model demo_cfg 3 = Inr s \<and> is_running (state s) ''A''"
    by (simp add: sim_eval wide_model_def demo_model_def demo_cfg_def nth_append)
  then obtain s' where s': "sim_upto wide_model demo_cfg 3 = Inr s'" "is_running (state s') ''A''"
    by (elim exE conjE)
  have h: "0 < max_len (demo_model 2)" "max_len (demo_model 2) = 2" "distinct (roster demo_cfg)"
    "0 < max_len wide_model" "max_len wide_model = 2"
    by (simp_all add: demo_model_def wide_model_def roster_def demo_cfg_def)
  have u: "[1..<Suc 2] = [1, 2]" "[1..<Suc 3] = [1, 2, 3]" "(3::nat) - 2 = 1"
    by code_simp+
  from rolling_history_bounded_fifo[OF s(1) h(1), of "''A''"] s h
  have a: "\<exists>s. sim_upto (demo_model 2) demo_cfg 2 = Inr s \<and> 0 < max_len (demo_model 2) \<and>
       distinct (roster demo_cfg) \<and> is_running (state s) ''A'' \<and>
       (\<forall>n h. history s n = Some h \<longrightarrow> length h \<le> 2) \<and>
       history s ''A'' = Some [snapshot (demo_model 2) demo_cfg ''A'' 1,
                               snapshot (demo_model 2) demo_cfg ''A'' 2]"
    unfolding u by (intro exI[of _ s]) simp
  from rolling_history_bounded_fifo[OF s'(1) h(4), of "''A''"] s' h
  have b: "\<exists>s. sim_upto wide_model demo_cfg 3 = Inr s \<and> 0 < max_len wide_model \<and>
       is_running (state s) ''A'' \<and>
       (\<forall>n h. history s n = Some h \<longrightarrow> length h \<le> 2) \<and>
       history s ''A'' = Some [snapshot wide_model demo_cfg ''A'' 2,
                               snapshot wide_model demo_cfg ''A'' 3]"
    unfolding u by (intro exI[of _ s']) simp
  from a b show ?thesis by (rule conjI)
qed

section \<open>Running order and final classification\<close>

lemma filter_reorder:
  "filter (is_running st) (running_sorted st xs @ retired st xs) = running_sorted st xs"
  "filter (\<lambda>n. \<not> is_running st n) (running_sorted st xs @ retired st xs) = retired st xs"
  by (simp_all add: running_sorted_def retired_def filter_sort)

lemma sorted_running_sorted: "sorted (map (time_of st) (running_sorted st xs))"
  by (simp add: running_sorted_def)

lemma sorted_wrt_all: "(\<And>a b. a \<in> set xs \<Longrightarrow> b \<in> set xs \<Longrightarrow> P a b) \<Longrightarrow> sorted_wrt P xs"
  by (induction xs) auto

lemma sorted_map_const:
  fixes f :: "'a \<Rightarrow> real"
  shows "(\<And>x. f x = 0) \<Longrightarrow> sorted (map f xs)"
  by (induction xs) auto

lemma retired_no_later_iff:
  "retired_no_later cfg a b \<longleftrightarrow> (\<forall>j. dnf_by cfg j a \<longrightarrow> dnf_by cfg j b)"
proof
  assume r: "retired_no_later cfg a b"
  show "\<forall>j. dnf_by cfg j a \<longrightarrow> dnf_by cfg j b"
  proof (intro allI impI)
    fix j assume "dnf_by cfg j a"
    then obtain l where l: "(a, l) \<in> set (dnfs cfg)" "1 \<le> l" "l \<le> int j"
      unfolding dnf_by_iff by blast
    with r obtain l' where "(b, l') \<in> set (dnfs cfg)" "1 \<le> l'" "l' \<le> l"
      by (fastforce simp: retired_no_later_def list_all_iff list_ex_iff)
    with l(3) show "dnf_by cfg j b" unfolding dnf_by_iff by force
  qed
next
  assume r: "\<forall>j. dnf_by cfg j a \<longrightarrow> dnf_by cfg j b"
  have ex: "\<exists>l'. (b, l') \<in> set (dnfs cfg) \<and> 1 \<le> l' \<and> l' \<le> l"
    if "(a, l) \<in> set (dnfs cfg)" "1 \<le> l" for l
  proof -
    from that have "dnf_by cfg (nat l) a" unfolding dnf_by_iff by force
    with r have "dnf_by cfg (nat l) b" by blast
    with that(2) show ?thesis unfolding dnf_by_iff by force
  qed
  then show "retired_no_later cfg a b"
    unfolding retired_no_later_def list_all_iff list_ex_iff
  proof (intro ballI impI)
    fix e assume e: "e \<in> set (dnfs cfg)" "fst e = a \<and> 1 \<le> snd e"
    then have "(a, snd e) \<in> set (dnfs cfg)" by (metis prod.collapse)
    with e(2) ex[of "snd e"] obtain l' where "(b, l') \<in> set (dnfs cfg)" "1 \<le> l'" "l' \<le> snd e"
      by blast
    then show "\<exists>e' \<in> set (dnfs cfg). fst e' = b \<and> 1 \<le> snd e' \<and> snd e' \<le> snd e"
      by (intro bexI[of _ "(b, l')"]) simp_all
  qed
qed

lemma sim_upto_order_inv:
  "sim_upto M cfg k = Inr s \<Longrightarrow>
   order s = filter (is_running (state s)) (order s) @ filter (\<lambda>n. \<not> is_running (state s) n) (order s) \<and>
   sorted (map (time_of (state s)) (filter (is_running (state s)) (order s))) \<and>
   sorted_wrt (retired_no_later cfg) (filter (\<lambda>n. \<not> is_running (state s) n) (order s))"
proof (induction k arbitrary: s)
  case 0
  have r: "is_running (state s) n" if "n \<in> set (order s)" for n
    using sim_upto_running[OF 0, of n] sim_upto_set_order[OF 0] that
    by (simp add: dnf_by_iff)
  then have f: "filter (is_running (state s)) (order s) = order s"
    "filter (\<lambda>n. \<not> is_running (state s) n) (order s) = []"
    by (simp_all add: filter_id_conv filter_empty_conv)
  have "time_of (state s) n = 0" for n
    using 0 init_sim_running[of cfg n] by (auto simp: time_of_def split: option.splits)
  then have "sorted (map (time_of (state s)) (order s))"
    by (rule sorted_map_const)
  then show ?case unfolding f by simp
next
  case (Suc k)
  let ?l = "int (Suc k)"
  from sim_upto_Suc[OF Suc.prems] obtain s0 where s0: "sim_upto M cfg k = Inr s0"
    and st: "lap_step M cfg (pit_loss_of M cfg) ?l s0 = Inr s" by blast
  let ?R0 = "filter (is_running (state s0)) (order s0)"
  let ?D0 = "filter (\<lambda>n. \<not> is_running (state s0) n) (order s0)"
  let ?N = "filter (\<lambda>n. \<not> is_running (state s) n) ?R0"
  from Suc.IH[OF s0] have o0: "order s0 = ?R0 @ ?D0"
    and w0: "sorted_wrt (retired_no_later cfg) ?D0" by blast+
  have o: "order s = running_sorted (state s) (order s0) @ retired (state s) (order s0)"
    by (rule lap_step_order[OF st])
  have f: "filter (is_running (state s)) (order s) = running_sorted (state s) (order s0)"
    "filter (\<lambda>n. \<not> is_running (state s) n) (order s) = retired (state s) (order s0)"
    unfolding o by (rule filter_reorder)+
  have fD: "filter (\<lambda>n. \<not> is_running (state s) n) ?D0 = ?D0"
    by (rule filter_True) (simp add: lap_step_running[OF st])
  have "retired (state s) (order s0) = filter (\<lambda>n. \<not> is_running (state s) n) (?R0 @ ?D0)"
    unfolding retired_def by (rule arg_cong[OF o0])
  also have "\<dots> = ?N @ filter (\<lambda>n. \<not> is_running (state s) n) ?D0"
    by (rule filter_append)
  finally have ret: "retired (state s) (order s0) = ?N @ ?D0"
    unfolding fD .
  have run0: "n \<in> set (roster cfg) \<and> \<not> dnf_by cfg k n" if "n \<in> set ?N" for n
    using that sim_upto_running[OF s0, of n] by simp
  have dnf1: "dnf_by cfg (Suc k) n" if "n \<in> set ?N" for n
  proof -
    from that have "\<not> is_running (state s) n" by simp
    with sim_upto_running[OF Suc.prems, of n] run0[OF that] show ?thesis by blast
  qed
  have dnf0: "dnf_by cfg k n" if "n \<in> set ?D0" for n
    using that sim_upto_running[OF s0, of n] sim_upto_set_order[OF s0] by auto
  have late: "k < j" if "n \<in> set ?N" "dnf_by cfg j n" for n j
  proof (rule ccontr)
    assume "\<not> k < j"
    then have "j \<le> k" by simp
    from dnf_by_mono[OF that(2) this] run0[OF that(1)] show False by simp
  qed
  have nn: "retired_no_later cfg a b" if "a \<in> set ?N" "b \<in> set ?N" for a b
    unfolding retired_no_later_iff
  proof (intro allI impI)
    fix j assume "dnf_by cfg j a"
    from late[OF that(1) this] have "Suc k \<le> j" by simp
    from dnf_by_mono[OF dnf1[OF that(2)] this] show "dnf_by cfg j b" .
  qed
  have nd: "retired_no_later cfg a b" if "a \<in> set ?N" "b \<in> set ?D0" for a b
    unfolding retired_no_later_iff
  proof (intro allI impI)
    fix j assume "dnf_by cfg j a"
    from late[OF that(1) this] have "k \<le> j" by simp
    from dnf_by_mono[OF dnf0[OF that(2)] this] show "dnf_by cfg j b" .
  qed
  have "sorted_wrt (retired_no_later cfg) (?N @ ?D0)"
    unfolding sorted_wrt_append
  proof (intro conjI ballI)
    show "sorted_wrt (retired_no_later cfg) ?N" by (rule sorted_wrt_all) (rule nn)
    show "sorted_wrt (retired_no_later cfg) ?D0" by (rule w0)
    show "retired_no_later cfg a b" if "a \<in> set ?N" "b \<in> set ?D0" for a b
      using that by (rule nd)
  qed
  then have "sorted_wrt (retired_no_later cfg) (retired (state s) (order s0))"
    unfolding ret .
  with o sorted_running_sorted[of "state s" "order s0"] show ?case unfolding f by (intro conjI)
qed

lemma classify_running_pos:
  "map pos (classify_running st p xs) = map Some [p..<p + length (classify_running st p xs)]"
proof (induction xs arbitrary: p)
  case Nil
  show ?case by simp
next
  case (Cons a xs)
  show ?case
  proof (cases "is_running st a")
    case False
    then show ?thesis using Cons.IH[of p] by (auto simp: is_running_def split: option.splits)
  next
    case True
    then obtain s where s: "st a = Some s" "running s"
      by (auto simp: is_running_def split: option.splits)
    have "[p..<Suc (p + n)] = p # [Suc p..<Suc (p + n)]" for n
      by (rule upt_conv_Cons) simp
    with s Cons.IH[of "Suc p"] show ?thesis by simp
  qed
qed

lemma classify_running_times:
  "map cl_total_time (classify_running st p xs) = map (time_of st) (filter (is_running st) xs)"
  by (induction xs arbitrary: p) (auto simp: is_running_def time_of_def split: option.splits)

lemma classify_running_drivers':
  "map driver (classify_running st p xs) = filter (is_running st) xs"
  by (induction xs arbitrary: p) (auto simp: is_running_def split: option.splits)

lemma classify_parts:
  "finished_part (classify s) = classify_running (state s) 1 (order s)"
  "dnf_part (classify s) = classify_dnf (state s) (order s)"
proof -
  have a: "filter (\<lambda>e. cl_status e = Finished) (classify_running (state s) p (order s)) =
           classify_running (state s) p (order s)" for p
    by (rule filter_True) (simp add: classify_running_entry)
  have b: "filter (\<lambda>e. cl_status e = Finished) (classify_dnf (state s) (order s)) = []"
    using classify_dnf_entry[of _ "state s" "order s"] by (auto simp: filter_empty_conv)
  have c: "filter (\<lambda>e. cl_status e = DNF) (classify_running (state s) p (order s)) = []" for p
    using classify_running_entry[of _ "state s" p "order s"] by (auto simp: filter_empty_conv)
  have d: "filter (\<lambda>e. cl_status e = DNF) (classify_dnf (state s) (order s)) =
           classify_dnf (state s) (order s)"
    by (rule filter_True) (simp add: classify_dnf_entry)
  show "finished_part (classify s) = classify_running (state s) 1 (order s)"
    unfolding finished_part_def classify_def filter_append a b by simp
  show "dnf_part (classify s) = classify_dnf (state s) (order s)"
    unfolding dnf_part_def classify_def filter_append c d by simp
qed

lemma stable_ties:
  assumes "sim_upto M cfg k = Inr s0" "sim_upto M cfg (Suc k) = Inr s"
  shows "map driver (filter (\<lambda>e. cl_total_time e = t) (finished_part (classify s))) =
         filter (\<lambda>n. \<exists>e \<in> set (finished_part (classify s)). driver e = n \<and> cl_total_time e = t)
           (order s0)"
proof -
  let ?st = "state s"
  let ?fin = "classify_running ?st 1 (order s)"
  from assms have st: "lap_step M cfg (pit_loss_of M cfg) (int (Suc k)) s0 = Inr s" by simp
  have o: "order s = running_sorted ?st (order s0) @ retired ?st (order s0)"
    by (rule lap_step_order[OF st])
  have drv: "map driver ?fin = running_sorted ?st (order s0)"
    unfolding classify_running_drivers' o by (rule filter_reorder)
  have tm: "cl_total_time e = time_of ?st (driver e)" if "e \<in> set ?fin" for e
    using classify_running_entry[OF that] by simp
  have "map driver (filter (\<lambda>e. cl_total_time e = t) ?fin) =
        map driver (filter (\<lambda>e. time_of ?st (driver e) = t) ?fin)"
    by (rule arg_cong[where f = "map driver"], rule filter_cong) (simp_all add: tm)
  also have "\<dots> = filter (\<lambda>n. time_of ?st n = t) (map driver ?fin)"
    by (simp add: filter_map comp_def)
  also have "\<dots> = filter (\<lambda>n. time_of ?st n = t) (filter (is_running ?st) (order s0))"
    unfolding drv running_sorted_def by (rule sort_key_stable)
  also have "\<dots> = filter (\<lambda>n. \<exists>e \<in> set ?fin. driver e = n \<and> cl_total_time e = t) (order s0)"
  proof -
    have "(\<exists>e \<in> set ?fin. driver e = n \<and> cl_total_time e = t) \<longleftrightarrow>
          is_running ?st n \<and> time_of ?st n = t" if "n \<in> set (order s0)" for n
    proof
      assume "\<exists>e \<in> set ?fin. driver e = n \<and> cl_total_time e = t"
      then obtain e where "e \<in> set ?fin" "driver e = n" "cl_total_time e = t" by blast
      with classify_running_entry[of e ?st 1 "order s"] show "is_running ?st n \<and> time_of ?st n = t"
        by auto
    next
      assume a: "is_running ?st n \<and> time_of ?st n = t"
      with that have "n \<in> set (running_sorted ?st (order s0))" by (simp add: running_sorted_def)
      then have "n \<in> set (map driver ?fin)" unfolding drv .
      then obtain e where "e \<in> set ?fin" "driver e = n" by auto
      with tm[of e] a show "\<exists>e \<in> set ?fin. driver e = n \<and> cl_total_time e = t" by auto
    qed
    then show ?thesis
      unfolding filter_filter by (intro filter_cong) auto
  qed
  finally show ?thesis unfolding classify_parts .
qed

text \<open>
  C7. The classification of a completed simulation is its Finished entries followed by its
  DNF entries; its drivers are exactly the configured ones (as a multiset), so the two
  parts together have as many entries as there are drivers. The Finished entries carry
  the positions \<open>1, 2, \<dots>\<close> without gaps and are in ascending cumulative time; drivers with
  equal time keep the relative order they had before the last lap's sort (with no lap at
  all the order is the grid order). The DNF entries have no position, belong to drivers
  with a retirement entry on a lap of the race, and are ordered by retirement: whoever is
  listed later retired no later.
\<close>

theorem final_classification_partition:
  assumes "simulate M cfg = Inr res"
  shows "let cls = classification res; fin = finished_part cls; dnf = dnf_part cls in
           cls = fin @ dnf \<and>
           mset (map driver cls) = mset (roster cfg) \<and>
           length fin + length dnf = length (drivers cfg) \<and>
           map pos fin = map Some [1..<Suc (length fin)] \<and>
           sorted (map cl_total_time fin) \<and>
           (\<forall>k s0 t. nat (total_laps cfg) = Suc k \<and> sim_upto M cfg k = Inr s0 \<longrightarrow>
              map driver (filter (\<lambda>e. cl_total_time e = t) fin) =
              filter (\<lambda>n. \<exists>e \<in> set fin. driver e = n \<and> cl_total_time e = t) (order s0)) \<and>
           (total_laps cfg < 1 \<longrightarrow>
              map driver fin = sort_key (grid_of (init_state (drivers cfg))) (roster cfg)) \<and>
           (\<forall>e \<in> set dnf. pos e = None \<and> dnf_by cfg (nat (total_laps cfg)) (driver e)) \<and>
           sorted_wrt (retired_no_later cfg) (map driver dnf)"
proof -
  let ?K = "nat (total_laps cfg)"
  from assms obtain s where s: "sim_upto M cfg ?K = Inr s"
    and res: "classification res = classify s"
    by (auto simp: simulate_def split: sum.splits)
  let ?fin = "classify_running (state s) 1 (order s)"
  let ?dnf = "classify_dnf (state s) (order s)"
  note inv = sim_upto_order_inv[OF s]
  have sub: "set (order s) \<subseteq> dom (state s)" by (rule sim_upto_order_dom[OF s])
  have c1: "classify s = ?fin @ ?dnf" by (simp add: classify_def)
  have c2: "mset (map driver (classify s)) = mset (roster cfg)"
    using classify_mset[OF sub] sim_upto_dom[OF s] by simp
  have "length (map driver (classify s)) = length (roster cfg)"
    by (rule mset_eq_length[OF c2])
  then have c3: "length ?fin + length ?dnf = length (drivers cfg)"
    by (simp add: c1 roster_def)
  have c4: "map pos ?fin = map Some [1..<Suc (length ?fin)]"
    using classify_running_pos[of "state s" 1 "order s"] by simp
  have c5: "sorted (map cl_total_time ?fin)"
    unfolding classify_running_times using inv by blast
  have c6: "map driver (filter (\<lambda>e. cl_total_time e = t) (finished_part (classify s))) =
            filter (\<lambda>n. \<exists>e \<in> set (finished_part (classify s)). driver e = n \<and> cl_total_time e = t)
              (order s0)"
    if "?K = Suc k" "sim_upto M cfg k = Inr s0" for k s0 t
    using stable_ties[OF that(2) s[unfolded that(1)]] .
  have c7: "map driver ?fin = sort_key (grid_of (init_state (drivers cfg))) (roster cfg)"
    if "total_laps cfg < 1"
  proof -
    from that s have s0: "s = init_sim cfg" by simp
    from that s have "sim_upto M cfg 0 = Inr s" by simp
    from sim_upto_running[OF this] sim_upto_set_order[OF this]
    have "filter (is_running (state s)) (order s) = order s"
      by (intro filter_True) (simp add: dnf_by_iff)
    then show ?thesis
      unfolding classify_running_drivers' by (simp add: s0 init_sim_def roster_def)
  qed
  have c8: "pos e = None \<and> dnf_by cfg ?K (driver e)" if "e \<in> set ?dnf" for e
  proof -
    from that have "driver e \<in> set (map driver ?dnf)" by simp
    then have "driver e \<in> set (order s)" unfolding classify_dnf_drivers[OF sub] by simp
    with sim_upto_running[OF s, of "driver e"] sim_upto_set_order[OF s] classify_dnf_entry[OF that]
    show ?thesis by simp
  qed
  have c9: "sorted_wrt (retired_no_later cfg) (map driver ?dnf)"
    unfolding classify_dnf_drivers[OF sub] using inv by blast
  show ?thesis
    unfolding Let_def res classify_parts
    using c1 c2 c3 c4 c5 c6[unfolded classify_parts] c7 c8 c9 by (intro conjI allI impI ballI) auto
qed

theorem final_classification_partition_witness:
  "\<exists>res s0. simulate (demo_model 5) demo_cfg = Inr res \<and>
     nat (total_laps demo_cfg) = Suc 2 \<and> sim_upto (demo_model 5) demo_cfg 2 = Inr s0 \<and>
     classification res = finished_part (classification res) @ dnf_part (classification res) \<and>
     map driver (finished_part (classification res)) = [''A''] \<and>
     map driver (dnf_part (classification res)) = [''B''] \<and>
     map pos (finished_part (classification res)) = [Some 1] \<and>
     sorted (map cl_total_time (finished_part (classification res))) \<and>
     map driver (filter (\<lambda>e. cl_total_time e = 292) (finished_part (classification res))) =
       filter (\<lambda>n. \<exists>e \<in> set (finished_part (classification res)).
                  driver e = n \<and> cl_total_time e = 292) (order s0) \<and>
     (\<forall>e \<in> set (dnf_part (classification res)). pos e = None) \<and>
     sorted_wrt (retired_no_later demo_cfg) (map driver (dnf_part (classification res)))"
proof -
  have "\<exists>res. simulate (demo_model 5) demo_cfg = Inr res \<and>
          map driver (finished_part (classification res)) = [''A''] \<and>
          map driver (dnf_part (classification res)) = [''B'']"
    by (simp add: sim_eval demo_model_def demo_cfg_def finished_part_def dnf_part_def)
  then obtain res where r: "simulate (demo_model 5) demo_cfg = Inr res"
    "map driver (finished_part (classification res)) = [''A'']"
    "map driver (dnf_part (classification res)) = [''B'']" by (elim exE conjE)
  have "\<exists>s0. sim_upto (demo_model 5) demo_cfg 2 = Inr s0"
    by (simp add: sim_eval demo_model_def demo_cfg_def)
  then obtain s0 where s0: "sim_upto (demo_model 5) demo_cfg 2 = Inr s0" by (elim exE)
  have k: "nat (total_laps demo_cfg) = Suc 2" by (simp add: demo_cfg_def)
  from r(2) have l: "length (finished_part (classification res)) = 1"
    by (metis length_map length_Cons list.size(3) One_nat_def)
  have u: "[1..<Suc 1] = [1]" by simp
  from final_classification_partition[OF r(1)] r l u k s0 show ?thesis
    unfolding Let_def by (intro exI[of _ res] exI[of _ s0]) simp
qed

section \<open>Pit-loss estimate\<close>

lemma fold_group_loss:
  "fold (\<lambda>c d. case f c of None \<Rightarrow> d | Some loss \<Rightarrow> d(c \<mapsto> loss)) cs d0 c =
     (if c \<in> set cs then (case f c of None \<Rightarrow> d0 c | Some loss \<Rightarrow> Some loss) else d0 c)"
  by (induction cs arbitrary: d0) (auto split: option.splits)

lemma group_loss_Nil: "group_loss [] = None"
  by (simp add: group_loss_def)

lemma estimate_pit_loss_group:
  "estimate_pit_loss True rows c = group_loss (filter (\<lambda>r. row_circuit r = Some c) rows)"
proof (cases "c \<in> set (List.map_filter row_circuit rows)")
  case True
  then show ?thesis
    by (simp add: estimate_pit_loss_def fold_group_loss split: option.splits)
next
  case False
  then have "filter (\<lambda>r. row_circuit r = Some c) rows = []"
    by (force simp: filter_empty_conv map_filter_def)
  with False show ?thesis
    by (simp add: estimate_pit_loss_def fold_group_loss group_loss_Nil)
qed

text \<open>
  C9. For a circuit \<open>c\<close>, let \<open>base\<close> and \<open>pits\<close> be the lap times of its non-pit and pit rows.
  The estimator has an entry \<open>loss\<close> for \<open>c\<close> exactly when both lists are non-empty, \<open>loss\<close> is
  the median of the pit lap times minus the median of \<open>base\<close>, and \<open>5 < loss < 60\<close>. A
  simulation with that table uses the entry of its circuit as pit loss and, when there is
  none, the \<open>default_pit_loss\<close> of the configuration: that value is reported as
  \<open>pit_loss_used\<close> and is what is added to the prediction on every pit lap.
\<close>

theorem pit_loss_estimate_band_and_default:
  assumes "pit_loss_by_circuit M = estimate_pit_loss True rows"
  shows "let base = map lap_time_s (filter (\<lambda>r. row_circuit r = Some c \<and> \<not> pit_this_lap r) rows);
             pits = map lap_time_s (filter (\<lambda>r. row_circuit r = Some c \<and> pit_this_lap r) rows)
         in (estimate_pit_loss True rows c = Some loss \<longleftrightarrow>
               base \<noteq> [] \<and> pits \<noteq> [] \<and>
               (\<exists>med_base. median base = Some med_base \<and>
                  median (map (\<lambda>t. t - med_base) pits) = Some loss) \<and>
               5 < loss \<and> loss < 60) \<and>
            pit_loss_of M cfg =
              (case estimate_pit_loss True rows (circuit cfg) of
                 None \<Rightarrow> default_pit_loss cfg | Some v \<Rightarrow> v) \<and>
            (\<forall>res. simulate M cfg = Inr res \<longrightarrow> pit_loss_used res = pit_loss_of M cfg) \<and>
            (\<forall>k s s' n d. sim_upto M cfg k = Inr s \<and> sim_upto M cfg (Suc k) = Inr s' \<and>
               state s n = Some d \<and> is_running (state s') n \<and> will_pit cfg n (int (Suc k)) \<and>
               estimate_pit_loss True rows (circuit cfg) = None \<longrightarrow>
               (\<exists>h ys. history s n = Some h \<and>
                  predict_sequence M
                    (h @ [mk_step cfg (int (Suc k)) (is_sc (int (Suc k)) (safety_cars cfg)) n d]) = Inr ys \<and>
                  length h < length ys \<and>
                  lap_times (last (timeline s')) n = Some (ys ! length h + default_pit_loss cfg)))"
proof -
  let ?g = "filter (\<lambda>r. row_circuit r = Some c) rows"
  let ?base = "map lap_time_s (filter (\<lambda>r. row_circuit r = Some c \<and> \<not> pit_this_lap r) rows)"
  let ?pits = "map lap_time_s (filter (\<lambda>r. row_circuit r = Some c \<and> pit_this_lap r) rows)"
  have b: "map lap_time_s (filter (\<lambda>r. \<not> pit_this_lap r) ?g) = ?base"
    and p: "filter pit_this_lap ?g = filter (\<lambda>r. row_circuit r = Some c \<and> pit_this_lap r) rows"
    by (simp_all add: conj_commute)
  have m: "map (\<lambda>r. lap_time_s r - mb) (filter (\<lambda>r. row_circuit r = Some c \<and> pit_this_lap r) rows) =
           map (\<lambda>t. t - mb) ?pits" for mb
    by (simp add: comp_def)
  have A: "estimate_pit_loss True rows c = Some loss \<longleftrightarrow>
           ?base \<noteq> [] \<and> ?pits \<noteq> [] \<and>
           (\<exists>med_base. median ?base = Some med_base \<and>
              median (map (\<lambda>t. t - med_base) ?pits) = Some loss) \<and> 5 < loss \<and> loss < 60"
    unfolding estimate_pit_loss_group group_loss_def Let_def p b[symmetric] m[symmetric]
    by (auto split: option.splits if_splits)
  have B: "pit_loss_of M cfg =
           (case estimate_pit_loss True rows (circuit cfg) of
              None \<Rightarrow> default_pit_loss cfg | Some v \<Rightarrow> v)"
    by (simp add: pit_loss_of_def assms)
  have C: "pit_loss_used res = pit_loss_of M cfg" if "simulate M cfg = Inr res" for res
    using that by (auto simp: simulate_def split: sum.splits)
  have D: "\<exists>h ys. history s n = Some h \<and>
             predict_sequence M
               (h @ [mk_step cfg (int (Suc k)) (is_sc (int (Suc k)) (safety_cars cfg)) n d]) = Inr ys \<and>
             length h < length ys \<and>
             lap_times (last (timeline s')) n = Some (ys ! length h + default_pit_loss cfg)"
    if "sim_upto M cfg k = Inr s" "sim_upto M cfg (Suc k) = Inr s'" "state s n = Some d"
      "is_running (state s') n" "will_pit cfg n (int (Suc k))"
      "estimate_pit_loss True rows (circuit cfg) = None" for k s s' n d
  proof -
    from that(1,2) have st: "lap_step M cfg (pit_loss_of M cfg) (int (Suc k)) s = Inr s'" by simp
    from sim_upto_dom[OF that(1)] sim_upto_set_order[OF that(1)] that(3)
    have mem: "n \<in> set (order s)" by auto
    from lap_step_lap_times_Some[OF st mem that(3,4)] that(5,6) B show ?thesis by auto
  qed
  from A B C D show ?thesis unfolding Let_def by blast
qed

theorem pit_loss_estimate_band_and_default_witness:
  "pit_loss_by_circuit ((demo_model 5)\<lparr>pit_loss_by_circuit := estimate_pit_loss True demo_rows\<rparr>) =
     estimate_pit_loss True demo_rows \<and>
   estimate_pit_loss True demo_rows ''Monza'' = Some 20 \<and>
   estimate_pit_loss True demo_rows ''Spa'' = None \<and>
   pit_loss_of ((demo_model 5)\<lparr>pit_loss_by_circuit := estimate_pit_loss True demo_rows\<rparr>) demo_cfg = 20 \<and>
   pit_loss_of ((demo_model 5)\<lparr>pit_loss_by_circuit := estimate_pit_loss True demo_rows\<rparr>)
     (demo_cfg\<lparr>circuit := ''Spa'', default_pit_loss := 25\<rparr>) = 25 \<and>
   (\<exists>s s'. sim_upto ((demo_model 5)\<lparr>pit_loss_by_circuit := estimate_pit_loss True demo_rows\<rparr>)
              (demo_cfg\<lparr>circuit := ''Spa'', default_pit_loss := 25\<rparr>) 1 = Inr s \<and>
            sim_upto ((demo_model 5)\<lparr>pit_loss_by_circuit := estimate_pit_loss True demo_rows\<rparr>)
              (demo_cfg\<lparr>circuit := ''Spa'', default_pit_loss := 25\<rparr>) 2 = Inr s' \<and>
            is_running (state s') ''A'' \<and>
            will_pit (demo_cfg\<lparr>circuit := ''Spa'', default_pit_loss := 25\<rparr>) ''A'' 2 \<and>
            lap_times (last (timeline s')) ''A'' = Some 115)"
proof -
  let ?M = "(demo_model 5)\<lparr>pit_loss_by_circuit := estimate_pit_loss True demo_rows\<rparr>"
  let ?cfg = "demo_cfg\<lparr>circuit := ''Spa'', default_pit_loss := 25\<rparr>"
  have h: "pit_loss_by_circuit ?M = estimate_pit_loss True demo_rows" by simp
  have s3: "sort [90, 92, 91 :: real] = [90, 91, 92]" "sort [19, 21 :: real] = [19, 21]"
    "sort [100 :: real] = [100]" "sort [2 :: real] = [2]"
    by simp_all
  have m: "median [90, 92, 91] = Some 91" "median [19, 21] = Some 20"
    "median [100] = Some 100" "median [2] = Some 2"
    unfolding median_def Let_def s3 by simp_all
  have c: "circuit demo_cfg = ''Monza''" "circuit ?cfg = ''Spa''" "default_pit_loss ?cfg = 25"
    by (simp_all add: demo_cfg_def)
  from pit_loss_estimate_band_and_default[OF h, of "''Monza''" 20 demo_cfg]
  have a: "estimate_pit_loss True demo_rows ''Monza'' = Some 20" "pit_loss_of ?M demo_cfg = 20"
    unfolding Let_def c by (simp_all add: demo_rows_def m)
  have "estimate_pit_loss True demo_rows ''Spa'' \<noteq> Some l" for l
    using pit_loss_estimate_band_and_default[OF h, of "''Spa''" l ?cfg]
    unfolding Let_def by (auto simp: demo_rows_def m)
  then have b: "estimate_pit_loss True demo_rows ''Spa'' = None"
    by (cases "estimate_pit_loss True demo_rows ''Spa''") auto
  note T = pit_loss_estimate_band_and_default[OF h, of "''Spa''" 2 ?cfg, unfolded Let_def c]
  from T b have p: "pit_loss_of ?M ?cfg = 25" by simp
  have "\<exists>s s' d. sim_upto ?M ?cfg (Suc 0) = Inr s \<and> sim_upto ?M ?cfg (Suc (Suc 0)) = Inr s' \<and>
          state s ''A'' = Some d \<and> is_running (state s') ''A'' \<and>
          map_option length (history s ''A'') = Some 1"
    by (simp add: sim_eval demo_model_def demo_cfg_def b)
  then obtain s s' d where s: "sim_upto ?M ?cfg (Suc 0) = Inr s"
    "sim_upto ?M ?cfg (Suc (Suc 0)) = Inr s'" "state s ''A'' = Some d"
    "is_running (state s') ''A''" "map_option length (history s ''A'') = Some 1"
    by (elim exE conjE)
  have w: "will_pit ?cfg ''A'' 2" by (simp add: will_pit_def strategy_get_def demo_cfg_def)
  have q: "ys ! length hh = 90" if "predict_sequence ?M (hh @ [x]) = Inr ys" "length hh = 1" for hh x ys
    using const_predict[OF that(1), of 90] that(2) by (simp add: demo_model_def)
  have w': "will_pit ?cfg ''A'' (int (Suc (Suc 0)))" using w by simp
  from T have "\<forall>k s s' n d. sim_upto ?M ?cfg k = Inr s \<and> sim_upto ?M ?cfg (Suc k) = Inr s' \<and>
      state s n = Some d \<and> is_running (state s') n \<and> will_pit ?cfg n (int (Suc k)) \<and>
      estimate_pit_loss True demo_rows ''Spa'' = None \<longrightarrow>
      (\<exists>h ys. history s n = Some h \<and>
         predict_sequence ?M
           (h @ [mk_step ?cfg (int (Suc k)) (is_sc (int (Suc k)) (safety_cars ?cfg)) n d]) = Inr ys \<and>
         length h < length ys \<and>
         lap_times (last (timeline s')) n = Some (ys ! length h + 25))"
    by (elim conjE)
  note D = this[rule_format, of "Suc 0" s s' "''A''" d]
  have "sim_upto ?M ?cfg (Suc 0) = Inr s \<and> sim_upto ?M ?cfg (Suc (Suc 0)) = Inr s' \<and>
      state s ''A'' = Some d \<and> is_running (state s') ''A'' \<and> will_pit ?cfg ''A'' (int (Suc (Suc 0))) \<and>
      estimate_pit_loss True demo_rows ''Spa'' = None"
    using s(1-4) w' b by (intro conjI)
  from D[OF this]
  obtain hh ys where hh: "history s ''A'' = Some hh"
    "predict_sequence ?M
       (hh @ [mk_step ?cfg (int (Suc (Suc 0))) (is_sc (int (Suc (Suc 0))) (safety_cars ?cfg)) ''A'' d]) = Inr ys"
    "length hh < length ys"
    "lap_times (last (timeline s')) ''A'' = Some (ys ! length hh + 25)"
    by (elim exE conjE)
  from hh(1) s(5) have "length hh = 1" by simp
  from hh(4) q[OF hh(2) this] have lt: "lap_times (last (timeline s')) ''A'' = Some 115"
    by simp
  have n: "sim_upto ?M ?cfg 1 = Inr s" "sim_upto ?M ?cfg 2 = Inr s'"
    using s(1,2) by (simp_all only: One_nat_def numeral_2_eq_2)
  from n s(4) w lt have "\<exists>s s'. sim_upto ?M ?cfg 1 = Inr s \<and> sim_upto ?M ?cfg 2 = Inr s' \<and>
      is_running (state s') ''A'' \<and> will_pit ?cfg ''A'' 2 \<and>
      lap_times (last (timeline s')) ''A'' = Some 115"
    by (intro exI[of _ s] exI[of _ s'] conjI)
  with h a b p show ?thesis by (intro conjI)
qed

section \<open>Races longer than the prediction window\<close>

lemma predict_laps_error:
  "predict_laps M cfg pl l sc st hs ns lts = Inl e \<Longrightarrow> set ns \<subseteq> dom st \<Longrightarrow>
   set ns \<subseteq> dom hs \<Longrightarrow>
   (\<And>n h d. hs n = Some h \<Longrightarrow> \<exists>ys. predict_sequence M (h @ [mk_step cfg l sc n d]) = Inr ys) \<Longrightarrow>
   e = IndexError"
proof (induction ns arbitrary: lts)
  case Nil
  then show ?case by simp
next
  case (Cons a ns)
  from Cons.prems(2,3) obtain s h where s: "st a = Some s" "hs a = Some h" by auto
  from Cons.prems(2,3) have sub: "set ns \<subseteq> dom st" "set ns \<subseteq> dom hs" by auto
  from Cons.prems(4)[OF s(2), of s] obtain ys where
    ys: "predict_sequence M (h @ [mk_step cfg l sc a s]) = Inr ys" by blast
  from Cons.prems(1) s ys consider
    (rest) lts' where "predict_laps M cfg pl l sc st hs ns lts' = Inl e"
    | (here) "py_index ys (length h) = Inl e"
    by (auto simp: Let_def split: if_splits sum.splits)
  then show ?case
  proof cases
    case rest
    from Cons.IH[OF this sub Cons.prems(4)] show ?thesis .
  next
    case here
    then show ?thesis by (auto simp: py_index_def split: if_splits)
  qed
qed

lemma lap_step_error:
  assumes "lap_step M cfg pl l s = Inl e" "set (order s) \<subseteq> dom (state s)"
    "set (order s) \<subseteq> dom (history s)"
    "\<And>n h d. history s n = Some h \<Longrightarrow>
       \<exists>ys. predict_sequence M (h @ [mk_step cfg l (is_sc l (safety_cars cfg)) n d]) = Inr ys"
  shows "e = IndexError"
proof -
  let ?st1 = "apply_dnfs cfg l (state s)"
  let ?sc = "is_sc l (safety_cars cfg)"
  have d1: "dom ?st1 = dom (state s)"
    by (auto simp: apply_dnfs_apply dom_def split: option.splits)
  show ?thesis
  proof (cases "predict_laps M cfg pl l ?sc ?st1 (history s) (order s) Map.empty")
    case (Inl e')
    with assms(1) have "e' = e" by (simp add: lap_step_def)
    moreover from assms(2) d1 have "set (order s) \<subseteq> dom ?st1" by simp
    from predict_laps_error[OF Inl this assms(3,4)] have "e' = IndexError" .
    ultimately show ?thesis by simp
  next
    case (Inr lts)
    have d2: "dom (update_totals lts ?st1) = dom (state s)"
      unfolding d1[symmetric] by (auto simp: update_totals_def dom_def split: option.splits)
    from update_tyres_total[of "order s" "update_totals lts ?st1" cfg l] assms(2) d2
    obtain st3 where u: "update_tyres cfg l (order s) (update_totals lts ?st1) = Inr st3" by auto
    have "n \<in> dom st3" if "n \<in> dom (state s)" for n
      using update_tyres_keeps[OF u, of n] that d2 by (auto split: option.splits)
    with assms(2) have "set (order s) \<subseteq> dom st3" by blast
    from push_history_total[OF this assms(3), of M cfg l ?sc]
    obtain hs where "push_history M cfg l ?sc st3 (order s) (history s) = Inr hs" by blast
    with Inr u assms(1) show ?thesis by (simp add: lap_step_def)
  qed
qed

lemma sim_upto_error_stays:
  "sim_upto M cfg k = Inl e \<Longrightarrow> sim_upto M cfg (k + d) = Inl e"
  by (induction d) simp_all

text \<open>
  C1. The sequence handed to the predictor is the history plus the current step; the
  network returns \<open>max_len\<close> outputs and the engine reads position \<open>len(hist) - 1\<close>. On lap
  \<open>max_len + 1\<close> the history of a driver who has run every lap holds \<open>max_len\<close> steps, the
  sequence has \<open>max_len + 1\<close> elements and the read is out of range. So a race with more
  than \<open>max_len\<close> laps in which some driver is still running on lap \<open>max_len + 1\<close> never
  returns a result; when the encoder accepts every step of the race, so that no earlier
  exception ends the run, it ends in an IndexError.
\<close>

theorem index_error_beyond_max_len:
  assumes "conforming M" "0 < max_len M" "distinct (roster cfg)" "n \<in> set (roster cfg)"
    "\<not> dnf_by cfg (Suc (max_len M)) n" "int (max_len M) < total_laps cfg"
  shows "(\<exists>e. simulate M cfg = Inl e) \<and>
         (steps_encodable M cfg \<longrightarrow> simulate M cfg = Inl IndexError)"
proof -
  let ?m = "max_len M"
  let ?l = "int (Suc ?m)"
  have key: "\<exists>e. sim_upto M cfg (Suc ?m) = Inl e"
  proof (cases "sim_upto M cfg (Suc ?m)")
    case (Inl e)
    then show ?thesis by blast
  next
    case (Inr s')
    from sim_upto_Suc[OF Inr] obtain s where s: "sim_upto M cfg ?m = Inr s"
      and st: "lap_step M cfg (pit_loss_of M cfg) ?l s = Inr s'" by blast
    from assms(5) have "\<not> dnf_by cfg ?m n" using dnf_by_mono[of cfg ?m n "Suc ?m"] by auto
    with sim_upto_running[OF s, of n] assms(4) have r: "is_running (state s) n" by simp
    then obtain d where d: "state s n = Some d" by (auto simp: is_running_def split: option.splits)
    from sim_upto_history_running[OF assms(3,2) s r]
    have h: "history s n = Some (py_last_n ?m (map (snapshot M cfg n) [1..<Suc ?m]))" .
    have len: "length (py_last_n ?m (map (snapshot M cfg n) [1..<Suc ?m])) = ?m"
      using assms(2) by (simp add: py_last_n_def)
    from sim_upto_running[OF Inr, of n] assms(4,5) have r': "is_running (state s') n" by simp
    from sim_upto_set_order[OF s] assms(4) have mem: "n \<in> set (order s)" by simp
    from lap_step_lap_times_Some[OF st mem d r'] h len
    obtain ys where "predict_sequence M
            (py_last_n ?m (map (snapshot M cfg n) [1..<Suc ?m]) @
             [mk_step cfg ?l (is_sc ?l (safety_cars cfg)) n d]) = Inr ys" "?m < length ys"
      by auto
    with conforming_length[OF assms(1) this(1)] assms(2) show ?thesis by simp
  qed
  have enc: "sim_upto M cfg (Suc ?m) = Inl IndexError" if "steps_encodable M cfg"
  proof -
    from sim_upto_total[OF assms(1,3) that, of ?m] obtain s where s: "sim_upto M cfg ?m = Inr s"
      by auto
    have sub: "set (order s) \<subseteq> dom (state s)" "set (order s) \<subseteq> dom (history s)"
      using sim_upto_dom[OF s] sim_upto_set_order[OF s] by simp_all
    from key obtain e where e: "sim_upto M cfg (Suc ?m) = Inl e" by blast
    with s have "lap_step M cfg (pit_loss_of M cfg) ?l s = Inl e" by simp
    from lap_step_error[OF this sub sim_upto_predict_ok[OF s that]] e show ?thesis by simp
  qed
  from assms(6) have "Suc ?m \<le> nat (total_laps cfg)" by simp
  then obtain j where j: "nat (total_laps cfg) = Suc ?m + j"
    using le_Suc_ex by blast
  from key obtain e where "sim_upto M cfg (Suc ?m) = Inl e" by blast
  from sim_upto_error_stays[OF this, of j] j have a: "\<exists>e. simulate M cfg = Inl e"
    by (simp add: simulate_def)
  have "simulate M cfg = Inl IndexError" if "steps_encodable M cfg"
    using sim_upto_error_stays[OF enc[OF that], of j] j by (simp add: simulate_def)
  with a show ?thesis by blast
qed

theorem index_error_beyond_max_len_witness:
  "conforming (demo_model 2) \<and> 0 < max_len (demo_model 2) \<and> distinct (roster demo_cfg) \<and>
   ''A'' \<in> set (roster demo_cfg) \<and> \<not> dnf_by demo_cfg (Suc (max_len (demo_model 2))) ''A'' \<and>
   int (max_len (demo_model 2)) < total_laps demo_cfg \<and>
   steps_encodable (demo_model 2) demo_cfg \<and>
   simulate (demo_model 2) demo_cfg = Inl IndexError"
proof -
  have h: "conforming (demo_model 2)" "0 < max_len (demo_model 2)" "distinct (roster demo_cfg)"
    "''A'' \<in> set (roster demo_cfg)" "\<not> dnf_by demo_cfg (Suc (max_len (demo_model 2))) ''A''"
    "int (max_len (demo_model 2)) < total_laps demo_cfg"
    by (rule conforming_demo) (simp_all add: demo_model_def roster_def demo_cfg_def dnf_by_def)
  have e: "steps_encodable (demo_model 2) demo_cfg"
    by (rule steps_encodable_demo) (simp_all add: demo_cfg_def)
  from index_error_beyond_max_len[OF h] e have "simulate (demo_model 2) demo_cfg = Inl IndexError"
    by blast
  with h e show ?thesis by (intro conjI)
qed

end
